theory Spec2Isabelle
  imports Complex_Main
begin

section \<open>Data model\<close>

text \<open>
  The Python sources compute with \<open>float\<close> and with numpy arrays of floats. The embedding
  takes floats as real numbers with exact arithmetic: infinities and not-a-number values
  are outside the model, and so is rounding, except where a property depends on it (the
  section on double-precision rounding gives those lines on doubles). Python's unbounded
  \<open>int\<close> configuration values are \<open>int\<close>; positions in lists produced by \<open>range\<close> and
  \<open>enumerate\<close> are \<open>nat\<close>.
\<close>

datatype MovementType = SNATCH_LEFT | SNATCH_RIGHT | SWING_LEFT | SWING_RIGHT | TWO_ARM_SWING

text \<open>\<open>models/schemas.py\<close>, class \<open>PositionSample\<close>: fields \<open>t\<close>, \<open>x\<close>, \<open>y\<close>, \<open>confidence\<close>.
  The one-letter field names are prefixed so that they stay usable as variables.\<close>

record PositionSample =
  sample_t :: real
  sample_x :: real
  sample_y :: real
  confidence :: real

text \<open>\<open>services/rep_detector.py\<close>, dataclass \<open>DetectedRep\<close>.\<close>

record DetectedRep =
  start_idx :: nat
  end_idx :: nat
  start_time :: real
  end_time :: real
  duration :: real
  peak_speed :: real
  vertical_displacement :: real
  is_valid :: bool

text \<open>\<open>services/ant_calculator.py\<close>, dataclass \<open>ANTResult\<close>.\<close>

record ANTResult =
  ant_reached :: bool
  ant_rep_index :: "int option"
  ant_timestamp_seconds :: "real option"
  baseline_speed :: real
  drop_percent_at_ant :: "real option"
  smoothed_speeds :: "real list"
  threshold_flags :: "bool list"

text \<open>The attributes an \<open>ANTCalculator\<close> instance holds after \<open>__init__\<close>.\<close>

record ANTCalculator =
  baseline_reps :: int
  drop_threshold :: real
  smoothing_window :: int
  sustain_count :: int

text \<open>Exceptions of the Python code as values. \<open>MeanOfEmptySlice\<close> stands for the
  not-a-number value (with a runtime warning) that \<open>np.mean\<close> gives on an empty array, which
  the reals cannot hold.\<close>

datatype error = ValueError string | IndexError | MeanOfEmptySlice

section \<open>Python and numpy primitives\<close>

text \<open>\<open>xs[i]\<close> for a Python \<open>int\<close>: a negative index counts from the end, an index out of
  range raises \<open>IndexError\<close>.\<close>

definition py_get :: "'a list \<Rightarrow> int \<Rightarrow> error + 'a" where
  "py_get xs i =
     (if 0 \<le> i \<and> i < int (length xs) then Inr (xs ! nat i)
      else if i < 0 \<and> - int (length xs) \<le> i then Inr (xs ! nat (int (length xs) + i))
      else Inl IndexError)"

text \<open>\<open>xs[:k]\<close> for a Python \<open>int\<close>: a negative bound counts from the end.\<close>

definition py_take :: "'a list \<Rightarrow> int \<Rightarrow> 'a list" where
  "py_take xs k = (if 0 \<le> k then take (nat k) xs else take (nat (int (length xs) + k)) xs)"

text \<open>\<open>xs[a:b]\<close> for bounds that are not negative.\<close>

definition slice :: "'a list \<Rightarrow> nat \<Rightarrow> nat \<Rightarrow> 'a list" where
  "slice xs a b = take (b - a) (drop a xs)"

text \<open>\<open>np.mean\<close> of an array that is not empty.\<close>

definition np_mean :: "real list \<Rightarrow> real" where
  "np_mean xs = sum_list xs / real (length xs)"

section \<open>The threshold detector: \<open>services/ant_calculator.py\<close>\<close>

text \<open>\<open>ANTCalculator.__init__\<close>: the four checks in the order of the source, each raising
  \<open>ValueError\<close>, then the attribute assignments.\<close>

definition ANTCalculator_init :: "int \<Rightarrow> real \<Rightarrow> int \<Rightarrow> int \<Rightarrow> error + ANTCalculator" where
  "ANTCalculator_init b d w s =
     (if b < 3 then Inl (ValueError ''baseline_reps must be at least 3'')
      else if \<not> (0 < d \<and> d < 1) then Inl (ValueError ''drop_threshold must be between 0 and 1'')
      else if w < 1 then Inl (ValueError ''smoothing_window must be at least 1'')
      else if s < 1 then Inl (ValueError ''sustain_count must be at least 1'')
      else Inr \<lparr>baseline_reps = b, drop_threshold = d, smoothing_window = w, sustain_count = s\<rparr>)"

text \<open>\<open>ANTCalculator._smooth\<close>: the data unchanged when \<open>window <= 1\<close> or the data is
  shorter than the window; otherwise, at each index, the mean of the slice
  \<open>data[max(0, i - half_window) : min(len(data), i + half_window + 1)]\<close>.\<close>

definition smooth :: "real list \<Rightarrow> int \<Rightarrow> real list" where
  "smooth data window =
     (if window \<le> 1 \<or> int (length data) < window then data
      else
        let half_window = window div 2
        in map (\<lambda>i.
                 let start = max 0 (int i - half_window);
                     end' = min (int (length data)) (int i + half_window + 1)
                 in np_mean (slice data (nat start) (nat end')))
               [0 ..< length data])"

text \<open>\<open>ANTCalculator._find_sustained_drop\<close>: the loop over \<open>enumerate(below_threshold)\<close>
  with the loop index \<open>i\<close> and the counter \<open>consecutive_count\<close> as arguments.\<close>

fun find_sustained_drop_loop :: "bool list \<Rightarrow> int \<Rightarrow> int \<Rightarrow> int \<Rightarrow> int option" where
  "find_sustained_drop_loop [] sc i cnt = None"
| "find_sustained_drop_loop (is_below # rest) sc i cnt =
     (if is_below then
        (if cnt + 1 \<ge> sc then Some (i - sc + 1)
         else find_sustained_drop_loop rest sc (i + 1) (cnt + 1))
      else find_sustained_drop_loop rest sc (i + 1) 0)"

definition find_sustained_drop :: "bool list \<Rightarrow> int \<Rightarrow> int option" where
  "find_sustained_drop below_threshold sc = find_sustained_drop_loop below_threshold sc 0 0"

text \<open>The result returned when there are too few valid reps.\<close>

definition insufficient_data :: ANTResult where
  "insufficient_data =
     \<lparr>ant_reached = False, ant_rep_index = None, ant_timestamp_seconds = None,
      baseline_speed = 0, drop_percent_at_ant = None,
      smoothed_speeds = [], threshold_flags = []\<rparr>"

text \<open>\<open>ANTCalculator.calculate\<close>. The two index reads \<open>valid_reps[ant_rep_index]\<close> and
  \<open>smoothed_speeds[ant_rep_index]\<close> are checked reads, so that an \<open>IndexError\<close> would be a
  result of the model.\<close>

definition calculate :: "ANTCalculator \<Rightarrow> DetectedRep list \<Rightarrow> error + ANTResult" where
  "calculate self reps =
     (let valid_reps = filter is_valid reps in
      if int (length valid_reps) < baseline_reps self + sustain_count self then
        Inr insufficient_data
      else
        let speeds = map peak_speed valid_reps;
            first_speeds = py_take speeds (baseline_reps self)
        in if first_speeds = [] then Inl MeanOfEmptySlice
           else
             let baseline = np_mean first_speeds in
             if baseline \<le> 0 then
               Inr \<lparr>ant_reached = False, ant_rep_index = None, ant_timestamp_seconds = None,
                    baseline_speed = 0, drop_percent_at_ant = None,
                    smoothed_speeds = speeds,
                    threshold_flags = replicate (length speeds) False\<rparr>
             else
               let smoothed = smooth speeds (smoothing_window self);
                   threshold_speed = baseline * (1 - drop_threshold self);
                   below_threshold = map (\<lambda>v. v < threshold_speed) smoothed
               in case find_sustained_drop below_threshold (sustain_count self) of
                    None \<Rightarrow>
                      Inr \<lparr>ant_reached = False, ant_rep_index = None,
                           ant_timestamp_seconds = None, baseline_speed = baseline,
                           drop_percent_at_ant = None, smoothed_speeds = smoothed,
                           threshold_flags = below_threshold\<rparr>
                  | Some k \<Rightarrow>
                      (case py_get valid_reps k of
                         Inl e \<Rightarrow> Inl e
                       | Inr rep \<Rightarrow>
                           (case py_get smoothed k of
                              Inl e \<Rightarrow> Inl e
                            | Inr current_speed \<Rightarrow>
                                Inr \<lparr>ant_reached = True, ant_rep_index = Some k,
                                     ant_timestamp_seconds = Some (start_time rep),
                                     baseline_speed = baseline,
                                     drop_percent_at_ant =
                                       Some ((baseline - current_speed) / baseline),
                                     smoothed_speeds = smoothed,
                                     threshold_flags = below_threshold\<rparr>)))"

section \<open>The rep segmentation engine: \<open>services/rep_detector.py\<close>\<close>

text \<open>The attributes a \<open>RepDetector\<close> instance holds after \<open>__init__\<close>, and its class
  constants.\<close>

record RepDetector =
  movement_type :: MovementType
  min_confidence :: real
  min_vertical_displacement :: real

definition MIN_VERTICAL_DISPLACEMENT_SWING :: real where
  "MIN_VERTICAL_DISPLACEMENT_SWING = 15 / 100"

definition MIN_VERTICAL_DISPLACEMENT_SNATCH :: real where
  "MIN_VERTICAL_DISPLACEMENT_SNATCH = 25 / 100"

definition MAX_REP_DURATION :: real where
  "MAX_REP_DURATION = 4"

definition MIN_REP_DURATION :: real where
  "MIN_REP_DURATION = 4 / 10"

definition VELOCITY_SMOOTHING_WINDOW :: nat where
  "VELOCITY_SMOOTHING_WINDOW = 3"

definition MIN_SAMPLES_BETWEEN_PEAKS :: nat where
  "MIN_SAMPLES_BETWEEN_PEAKS = 5"

definition RepDetector_init :: "MovementType \<Rightarrow> real \<Rightarrow> RepDetector" where
  "RepDetector_init mt mc =
     \<lparr>movement_type = mt, min_confidence = mc,
      min_vertical_displacement =
        (if mt = SNATCH_LEFT \<or> mt = SNATCH_RIGHT then MIN_VERTICAL_DISPLACEMENT_SNATCH
         else MIN_VERTICAL_DISPLACEMENT_SWING)\<rparr>"

text \<open>\<open>np.pad(signal, (before, after), mode='edge')\<close>, \<open>np.convolve(a, v, mode='valid')\<close>
  for \<open>len(v) <= len(a)\<close>, \<open>np.diff\<close>, \<open>np.max\<close> and \<open>np.min\<close> of an array that is not
  empty.\<close>

definition np_pad_edge :: "real list \<Rightarrow> nat \<Rightarrow> nat \<Rightarrow> real list" where
  "np_pad_edge xs before after = replicate before (hd xs) @ xs @ replicate after (last xs)"

definition np_convolve_valid :: "real list \<Rightarrow> real list \<Rightarrow> real list" where
  "np_convolve_valid a v =
     map (\<lambda>n. sum_list (map (\<lambda>k. a ! (n + k) * v ! (length v - 1 - k)) [0 ..< length v]))
         [0 ..< length a + 1 - length v]"

definition np_diff :: "real list \<Rightarrow> real list" where
  "np_diff xs = map (\<lambda>i. xs ! (i + 1) - xs ! i) [0 ..< length xs - 1]"

definition np_max :: "real list \<Rightarrow> real" where
  "np_max xs = fold max (tl xs) (hd xs)"

definition np_min :: "real list \<Rightarrow> real" where
  "np_min xs = fold min (tl xs) (hd xs)"

text \<open>\<open>RepDetector._smooth_signal\<close>: the signal itself when \<open>window <= 1\<close> or the signal
  is shorter than the window; otherwise the moving average over the edge-padded signal.\<close>

definition smooth_signal :: "real list \<Rightarrow> nat \<Rightarrow> real list" where
  "smooth_signal signal window =
     (if window \<le> 1 \<or> length signal < window then signal
      else
        let kernel = replicate window (1 / real window);
            padded = np_pad_edge signal (window div 2) (window - 1 - window div 2)
        in np_convolve_valid padded kernel)"

text \<open>\<open>RepDetector._find_peaks\<close>: one iteration of the loop over
  \<open>range(1, len(signal) - 1)\<close>, then the loop.\<close>

definition find_peaks_step :: "real list \<Rightarrow> nat \<Rightarrow> nat \<Rightarrow> nat list \<Rightarrow> nat list" where
  "find_peaks_step signal min_distance i peaks =
     (if signal ! i > signal ! (i - 1) \<and> signal ! i > signal ! (i + 1) then
        (if peaks = [] \<or> int i - int (last peaks) \<ge> int min_distance then peaks @ [i]
         else if signal ! i > signal ! (last peaks) then butlast peaks @ [i]
         else peaks)
      else peaks)"

definition find_peaks :: "real list \<Rightarrow> nat \<Rightarrow> nat list" where
  "find_peaks signal min_distance =
     fold (find_peaks_step signal min_distance) [1 ..< length signal - 1] []"

text \<open>\<open>RepDetector._calculate_peak_speed\<close>.\<close>

definition calculate_peak_speed :: "real list \<Rightarrow> PositionSample list \<Rightarrow> real" where
  "calculate_peak_speed tms seg =
     (if length tms < 2 then 0
      else
        let y_positions = map sample_y seg;
            dt = map (\<lambda>d. if d > 0 then d else 1 / 1000) (np_diff tms);
            dy = np_diff y_positions;
            velocities = map (\<lambda>(a, b). \<bar>a / b\<bar>) (zip dy dt);
            velocities' =
              (if length velocities \<ge> VELOCITY_SMOOTHING_WINDOW
               then smooth_signal velocities VELOCITY_SMOOTHING_WINDOW else velocities)
        in if length velocities' > 0 then np_max velocities' else 0)"

text \<open>\<open>RepDetector._validate_rep\<close>, with its early returns in the order of the source.
  \<open>np.sum(np.abs(np.diff(np.sign(dy_smooth))) > 0)\<close> counts the entries that are positive.\<close>

definition validate_rep :: "RepDetector \<Rightarrow> real \<Rightarrow> real \<Rightarrow> real list \<Rightarrow> bool" where
  "validate_rep self dur displacement y_segment =
     (if dur < MIN_REP_DURATION \<or> dur > MAX_REP_DURATION then False
      else if displacement < min_vertical_displacement self then False
      else if length y_segment < 5 then True
      else
        let dy = np_diff y_segment;
            dy_smooth = (if length dy \<ge> 3 then smooth_signal dy 3 else dy);
            sign_changes = length (filter (\<lambda>d. \<bar>d\<bar> > 0) (np_diff (map sgn dy_smooth)))
        in if int sign_changes > max 8 (int (length y_segment) div 3) then False else True)"

text \<open>\<open>RepDetector._segment_reps\<close>: the body of the loop for one \<open>i\<close> gives no rep
  (\<open>continue\<close>) or one rep; the loop runs over \<open>range(len(peaks) - 1)\<close>.\<close>

definition segment_rep_at ::
  "RepDetector \<Rightarrow> real list \<Rightarrow> real list \<Rightarrow> nat list \<Rightarrow> PositionSample list \<Rightarrow> nat
     \<Rightarrow> DetectedRep list" where
  "segment_rep_at self tms y_raw peaks seg i =
     (let s_idx = peaks ! i;
          e_idx = peaks ! (i + 1);
          s_time = tms ! s_idx;
          e_time = tms ! e_idx;
          dur = e_time - s_time;
          y_segment = slice y_raw s_idx (e_idx + 1)
      in if length y_segment < 2 then []
         else
           [\<lparr>start_idx = s_idx, end_idx = e_idx, start_time = s_time, end_time = e_time,
             duration = dur,
             peak_speed =
               calculate_peak_speed (slice tms s_idx (e_idx + 1)) (slice seg s_idx (e_idx + 1)),
             vertical_displacement = np_max y_segment - np_min y_segment,
             is_valid = validate_rep self dur (np_max y_segment - np_min y_segment) y_segment\<rparr>])"

definition segment_reps ::
  "RepDetector \<Rightarrow> real list \<Rightarrow> real list \<Rightarrow> real list \<Rightarrow> nat list \<Rightarrow> nat list
     \<Rightarrow> PositionSample list \<Rightarrow> DetectedRep list" where
  "segment_reps self tms y_raw y_smooth peaks valleys seg =
     concat (map (segment_rep_at self tms y_raw peaks seg) [0 ..< length peaks - 1])"

text \<open>\<open>RepDetector.detect_reps\<close>.\<close>

definition detect_reps :: "RepDetector \<Rightarrow> PositionSample list \<Rightarrow> DetectedRep list" where
  "detect_reps self input =
     (if length input < MIN_SAMPLES_BETWEEN_PEAKS * 2 then []
      else
        let valid_samples = filter (\<lambda>s. confidence s \<ge> min_confidence self) input
        in if length valid_samples < MIN_SAMPLES_BETWEEN_PEAKS * 2 then []
           else
             let tms = map sample_t valid_samples;
                 y_positions = map sample_y valid_samples;
                 y_smooth = smooth_signal y_positions VELOCITY_SMOOTHING_WINDOW;
                 peaks = find_peaks (map uminus y_smooth) MIN_SAMPLES_BETWEEN_PEAKS;
                 valleys = find_peaks y_smooth MIN_SAMPLES_BETWEEN_PEAKS
             in if length peaks < 2 \<and> length valleys < 2 then []
                else segment_reps self tms y_positions y_smooth peaks valleys valid_samples)"

section \<open>The streaming rep segmenter: class \<open>StreamingRepDetector\<close>\<close>

record StreamingRepDetector =
  stream_movement_type :: MovementType
  buffer_seconds :: real
  stream_min_confidence :: real
  detector :: RepDetector
  samples :: "PositionSample list"
  detected_reps :: "DetectedRep list"
  last_processed_idx :: int

definition StreamingRepDetector_init ::
  "MovementType \<Rightarrow> real \<Rightarrow> real \<Rightarrow> StreamingRepDetector" where
  "StreamingRepDetector_init mt buf mc =
     \<lparr>stream_movement_type = mt, buffer_seconds = buf, stream_min_confidence = mc,
      detector = RepDetector_init mt mc, samples = [], detected_reps = [],
      last_processed_idx = 0\<rparr>"

text \<open>The \<open>while\<close> loop of \<open>add_sample\<close> that pops the leading samples older than the
  cutoff, each pop lowering \<open>_last_processed_idx\<close> (not below 0).\<close>

fun prune :: "real \<Rightarrow> PositionSample list \<Rightarrow> int \<Rightarrow> PositionSample list \<times> int" where
  "prune cutoff_time [] idx = ([], idx)"
| "prune cutoff_time (s # rest) idx =
     (if sample_t s < cutoff_time then prune cutoff_time rest (max 0 (idx - 1))
      else (s # rest, idx))"

text \<open>\<open>StreamingRepDetector.add_sample\<close>: the returned list of new reps and the updated
  instance. \<open>existing_times\<close> is built once, before the loop over \<open>all_reps\<close>.\<close>

definition add_sample ::
  "StreamingRepDetector \<Rightarrow> PositionSample \<Rightarrow> DetectedRep list \<times> StreamingRepDetector" where
  "add_sample self sample =
     (let appended = samples self @ [sample];
          cutoff_time = sample_t (last appended) - buffer_seconds self;
          pruned = prune cutoff_time appended (last_processed_idx self);
          all_reps = detect_reps (detector self) (fst pruned);
          existing_times = set (map (\<lambda>r. (start_time r, end_time r)) (detected_reps self));
          new_reps = filter (\<lambda>rep. (start_time rep, end_time rep) \<notin> existing_times) all_reps
      in (new_reps,
          self\<lparr>samples := fst pruned,
               detected_reps := detected_reps self @ new_reps,
               last_processed_idx := snd pruned\<rparr>))"

definition get_all_reps :: "StreamingRepDetector \<Rightarrow> DetectedRep list" where
  "get_all_reps self = detected_reps self"

text \<open>Feeding a sequence of samples one at a time, each through \<open>add_sample\<close>.\<close>

definition feed_samples :: "StreamingRepDetector \<Rightarrow> PositionSample list \<Rightarrow> StreamingRepDetector" where
  "feed_samples self input = fold (\<lambda>sample st. snd (add_sample st sample)) input self"

text \<open>The key by which reps are compared across runs.\<close>

definition rep_key :: "DetectedRep \<Rightarrow> real \<times> real" where
  "rep_key r = (start_time r, end_time r)"

section \<open>Double-precision rounding\<close>

text \<open>
  Where a property depends on rounding, the function it is about is also given on IEEE 754
  doubles. \<open>fl\<close> rounds a real number to the nearest double, ties to the even significand,
  in the normal range (no overflow, no subnormal numbers): for \<open>2^e <= |x| < 2^(e+1)\<close> the
  doubles are the multiples of \<open>2^(e-52)\<close>. The exponent \<open>e\<close> is found by halving or
  doubling \<open>|x|\<close> until it lies in \<open>[1, 2)\<close>.
\<close>

definition round_half_even :: "real \<Rightarrow> int" where
  "round_half_even q =
     (let f = \<lfloor>q\<rfloor>; r = q - of_int f
      in if r < 1 / 2 then f else if 1 / 2 < r then f + 1 else if even f then f else f + 1)"

definition pow2 :: "int \<Rightarrow> real" where
  "pow2 e = (if 0 \<le> e then 2 ^ nat e else 1 / 2 ^ nat (- e))"

fun binade_search :: "nat \<Rightarrow> real \<Rightarrow> int" where
  "binade_search 0 x = 0"
| "binade_search (Suc n) x =
     (if 2 \<le> x then binade_search n (x / 2) + 1
      else if x < 1 then binade_search n (x * 2) - 1
      else 0)"

definition binade :: "real \<Rightarrow> int" where
  "binade x = binade_search 1100 \<bar>x\<bar>"

definition fl :: "real \<Rightarrow> real" where
  "fl x =
     (if x = 0 then 0
      else of_int (round_half_even (x / pow2 (binade x - 52))) * pow2 (binade x - 52))"

text \<open>\<open>ANTCalculator._smooth\<close> and \<open>ANTCalculator.calculate\<close> on doubles: every subtraction,
  multiplication and division of the source is rounded. \<open>np.mean\<close> on doubles sums in the
  order numpy chooses, which is not part of the repository: it is the parameter \<open>mean\<close>.\<close>

definition smooth_double :: "(real list \<Rightarrow> real) \<Rightarrow> real list \<Rightarrow> int \<Rightarrow> real list" where
  "smooth_double mean data window =
     (if window \<le> 1 \<or> int (length data) < window then data
      else
        let half_window = window div 2
        in map (\<lambda>i.
                 let start = max 0 (int i - half_window);
                     end' = min (int (length data)) (int i + half_window + 1)
                 in mean (slice data (nat start) (nat end')))
               [0 ..< length data])"

definition calculate_double ::
  "(real list \<Rightarrow> real) \<Rightarrow> ANTCalculator \<Rightarrow> DetectedRep list \<Rightarrow> error + ANTResult" where
  "calculate_double mean self reps =
     (let valid_reps = filter is_valid reps in
      if int (length valid_reps) < baseline_reps self + sustain_count self then
        Inr insufficient_data
      else
        let speeds = map peak_speed valid_reps;
            first_speeds = py_take speeds (baseline_reps self)
        in if first_speeds = [] then Inl MeanOfEmptySlice
           else
             let baseline = mean first_speeds in
             if baseline \<le> 0 then
               Inr \<lparr>ant_reached = False, ant_rep_index = None, ant_timestamp_seconds = None,
                    baseline_speed = 0, drop_percent_at_ant = None,
                    smoothed_speeds = speeds,
                    threshold_flags = replicate (length speeds) False\<rparr>
             else
               let smoothed = smooth_double mean speeds (smoothing_window self);
                   threshold_speed = fl (baseline * fl (1 - drop_threshold self));
                   below_threshold = map (\<lambda>v. v < threshold_speed) smoothed
               in case find_sustained_drop below_threshold (sustain_count self) of
                    None \<Rightarrow>
                      Inr \<lparr>ant_reached = False, ant_rep_index = None,
                           ant_timestamp_seconds = None, baseline_speed = baseline,
                           drop_percent_at_ant = None, smoothed_speeds = smoothed,
                           threshold_flags = below_threshold\<rparr>
                  | Some k \<Rightarrow>
                      (case py_get valid_reps k of
                         Inl e \<Rightarrow> Inl e
                       | Inr rep \<Rightarrow>
                           (case py_get smoothed k of
                              Inl e \<Rightarrow> Inl e
                            | Inr current_speed \<Rightarrow>
                                Inr \<lparr>ant_reached = True, ant_rep_index = Some k,
                                     ant_timestamp_seconds = Some (start_time rep),
                                     baseline_speed = baseline,
                                     drop_percent_at_ant =
                                       Some (fl (fl (baseline - current_speed) / baseline)),
                                     smoothed_speeds = smoothed,
                                     threshold_flags = below_threshold\<rparr>)))"

text \<open>The mean of a short array on doubles: for fewer than 8 elements numpy adds them one
  after the other, starting from 0, and divides the sum by the count.\<close>

definition mean_sequential :: "real list \<Rightarrow> real" where
  "mean_sequential xs = fl (foldl (\<lambda>acc x. fl (acc + x)) 0 xs / real (length xs))"

section \<open>Notions of the specification\<close>

text \<open>A run of \<open>s\<close> consecutive \<open>True\<close> values of \<open>flags\<close> that starts at index \<open>k\<close>, and
  the first index at which such a run starts.\<close>

definition run_at :: "bool list \<Rightarrow> nat \<Rightarrow> nat \<Rightarrow> bool" where
  "run_at flags s k = (k + s \<le> length flags \<and> (\<forall>j<s. flags ! (k + j)))"

definition first_run :: "bool list \<Rightarrow> nat \<Rightarrow> nat \<Rightarrow> bool" where
  "first_run flags s k = (run_at flags s k \<and> (\<forall>k'<k. \<not> run_at flags s k'))"

text \<open>The mean of the raw speeds over the indices from \<open>max(0, i - w // 2)\<close> up to, and
  not including, \<open>min(n, i + w // 2 + 1)\<close>: a centred window trimmed at the edges.\<close>

definition trimmed_window_mean :: "real list \<Rightarrow> int \<Rightarrow> nat \<Rightarrow> real" where
  "trimmed_window_mean speeds w i =
     np_mean (slice speeds (nat (max 0 (int i - w div 2)))
                           (nat (min (int (length speeds)) (int i + w div 2 + 1))))"

text \<open>The samples that \<open>detect_reps\<close> keeps (\<open>valid_samples\<close>), and the peak list it
  computes from them.\<close>

definition confident_samples :: "RepDetector \<Rightarrow> PositionSample list \<Rightarrow> PositionSample list" where
  "confident_samples self input = filter (\<lambda>s. confidence s \<ge> min_confidence self) input"

definition detected_peaks :: "RepDetector \<Rightarrow> PositionSample list \<Rightarrow> nat list" where
  "detected_peaks self input =
     find_peaks
       (map uminus (smooth_signal (map sample_y (confident_samples self input))
                      VELOCITY_SMOOTHING_WINDOW))
       MIN_SAMPLES_BETWEEN_PEAKS"

text \<open>The invariant of the loop of \<open>_find_peaks\<close> before index \<open>n\<close>: the peaks are strictly
  increasing and lie in \<open>[1, n)\<close>.\<close>

definition peaks_inv :: "nat \<Rightarrow> nat list \<Rightarrow> bool" where
  "peaks_inv n ps = (sorted_wrt (<) ps \<and> (\<forall>p \<in> set ps. 1 \<le> p \<and> p < n))"

text \<open>The rep that the loop of \<open>_segment_reps\<close> builds at position \<open>i\<close> of the peak list.\<close>

definition rep_at ::
  "RepDetector \<Rightarrow> real list \<Rightarrow> real list \<Rightarrow> nat list \<Rightarrow> PositionSample list \<Rightarrow> nat \<Rightarrow> DetectedRep" where
  "rep_at self tms y_raw peaks seg i = hd (segment_rep_at self tms y_raw peaks seg i)"

text \<open>The validity criteria in the words of the specification: the minimum displacement of
  each movement type; the number of sign changes of a sequence (the positions whose sign,
  negative, zero or positive, differs from the sign at the next position); the first difference of the
  raw vertical signal, smoothed with a window of 3 when it has at least 3 points; the arc
  smoothness check, which passes for a span of fewer than 5 samples.\<close>

definition spec_min_displacement :: "MovementType \<Rightarrow> real" where
  "spec_min_displacement mt =
     (case mt of
        SNATCH_LEFT \<Rightarrow> 25 / 100
      | SNATCH_RIGHT \<Rightarrow> 25 / 100
      | SWING_LEFT \<Rightarrow> 15 / 100
      | SWING_RIGHT \<Rightarrow> 15 / 100
      | TWO_ARM_SWING \<Rightarrow> 15 / 100)"

definition sign_change_count :: "real list \<Rightarrow> nat" where
  "sign_change_count ds =
     length (filter (\<lambda>i. sgn (ds ! i) \<noteq> sgn (ds ! (i + 1))) [0 ..< length ds - 1])"

definition smoothed_difference :: "real list \<Rightarrow> real list" where
  "smoothed_difference ys =
     (let dy = np_diff ys in if 3 \<le> length dy then smooth_signal dy 3 else dy)"

definition arc_smooth :: "real list \<Rightarrow> bool" where
  "arc_smooth ys =
     (length ys < 5 \<or> sign_change_count (smoothed_difference ys) \<le> max 8 (length ys div 3))"

section \<open>Concrete scenarios\<close>

text \<open>A valid rep that starts at a given time with a given peak speed.\<close>

definition rep_with_speed :: "real \<Rightarrow> real \<Rightarrow> DetectedRep" where
  "rep_with_speed st sp =
     \<lparr>start_idx = 0, end_idx = 1, start_time = st, end_time = st + 1, duration = 1,
      peak_speed = sp, vertical_displacement = 1 / 2, is_valid = True\<rparr>"

text \<open>Five reps at speed 1 followed by three at speed 0.5.\<close>

definition sustained_drop_reps :: "DetectedRep list" where
  "sustained_drop_reps =
     [rep_with_speed 0 1, rep_with_speed 1 1, rep_with_speed 2 1, rep_with_speed 3 1,
      rep_with_speed 4 1, rep_with_speed 5 (1 / 2), rep_with_speed 6 (1 / 2),
      rep_with_speed 7 (1 / 2)]"

text \<open>Four reps at speeds 1, 2, 3 and 4: fewer reps than a smoothing window of 5.\<close>

definition rising_reps :: "DetectedRep list" where
  "rising_reps =
     [rep_with_speed 0 1, rep_with_speed 1 2, rep_with_speed 2 3, rep_with_speed 3 4]"

text \<open>Six reps at speed 1.\<close>

definition six_reps :: "DetectedRep list" where
  "six_reps =
     [rep_with_speed 0 1, rep_with_speed 1 1, rep_with_speed 2 1, rep_with_speed 3 1,
      rep_with_speed 4 1, rep_with_speed 5 1]"

text \<open>A sample at a given time, height and confidence; a sample sequence at five samples
  per second, with full confidence, from a list of heights in tenths.\<close>

definition sample_at :: "real \<Rightarrow> real \<Rightarrow> real \<Rightarrow> PositionSample" where
  "sample_at tm ht c = \<lparr>sample_t = tm, sample_x = 1 / 2, sample_y = ht, confidence = c\<rparr>"

definition samples_of :: "real list \<Rightarrow> PositionSample list" where
  "samples_of hts = map (\<lambda>(i, v). sample_at (real i / 5) (v / 10) 1) (enumerate 0 hts)"

text \<open>Three dips of the height, at the indices 2, 8 and 14.\<close>

definition swing_samples :: "PositionSample list" where
  "swing_samples = samples_of [5, 3, 1, 3, 5, 5, 5, 3, 1, 3, 5, 5, 5, 3, 1, 3, 5]"

text \<open>The same sequence with three samples of confidence 0.1 in between.\<close>

definition noisy_swing_samples :: "PositionSample list" where
  "noisy_swing_samples =
     take 4 swing_samples @ [sample_at (7 / 10) (9 / 10) (1 / 10)] @
     take 5 (drop 4 swing_samples) @
     [sample_at (17 / 10) 0 (1 / 10), sample_at (35 / 20) 1 (1 / 10)] @
     drop 9 swing_samples"

text \<open>Two dips, at the indices 2 and 8, and a last sample that falls further.\<close>

definition dip_samples :: "PositionSample list" where
  "dip_samples = samples_of [5, 3, 1, 3, 5, 5, 5, 3, 1, 4, 0]"

text \<open>The double nearest to 0.9, the double printed as 0.8999999999999997, and five reps at
  speed 9 followed by two reps at that speed.\<close>

definition double_0_9 :: real where
  "double_0_9 = 8106479329266893 / 2 ^ 53"

definition double_below_0_9 :: real where
  "double_below_0_9 = 8106479329266890 / 2 ^ 53"

definition near_threshold_reps :: "DetectedRep list" where
  "near_threshold_reps =
     [rep_with_speed 0 9, rep_with_speed 1 9, rep_with_speed 2 9, rep_with_speed 3 9,
      rep_with_speed 4 9, rep_with_speed 5 double_below_0_9,
      rep_with_speed 6 double_below_0_9]"

text \<open>The double nearest to 0.2.\<close>

definition double_0_2 :: real where
  "double_0_2 = 3602879701896397 / 2 ^ 54"

section \<open>The sustained-drop scan\<close>

text \<open>Both notions can be evaluated on a concrete list of flags.\<close>

lemma run_at_code [code]:
  "run_at flags s k = (k + s \<le> length flags \<and> (\<forall>j \<in> {0 ..< s}. flags ! (k + j)))"
  by (auto simp: run_at_def)

lemma first_run_code [code]:
  "first_run flags s k = (run_at flags s k \<and> (\<forall>k' \<in> {0 ..< k}. \<not> run_at flags s k'))"
  by (auto simp: first_run_def)


lemma run_at_append_last_False:
  assumes "0 < s" "\<forall>k'. \<not> run_at pre s k'"
  shows "\<not> run_at (pre @ [False]) s k"
proof
  assume r: "run_at (pre @ [False]) s k"
  show False
  proof (cases "k + s \<le> length pre")
    case True
    have "run_at pre s k"
      unfolding run_at_def
    proof (intro conjI allI impI)
      show "k + s \<le> length pre" by (rule True)
    next
      fix j assume "j < s"
      with r True show "pre ! (k + j)" by (auto simp: run_at_def nth_append)
    qed
    with assms show False by blast
  next
    case False
    with r have e: "k + s = length pre + 1" by (auto simp: run_at_def)
    from r have "\<forall>j<s. (pre @ [False]) ! (k + j)" by (simp add: run_at_def)
    with assms(1) have "(pre @ [False]) ! (k + (s - 1))" by (metis diff_less zero_less_one)
    moreover from e assms(1) have "k + (s - 1) = length pre" by arith
    ultimately show False by (simp add: nth_append)
  qed
qed

lemma find_loop_inv:
  assumes "0 < s" "c < s" "c \<le> length pre"
    and "\<forall>j<c. pre ! (length pre - c + j)"
    and "c = length pre \<or> \<not> pre ! (length pre - c - 1)"
    and "\<forall>k'. \<not> run_at pre s k'"
  shows "case find_sustained_drop_loop rest (int s) (int (length pre)) (int c) of
           None \<Rightarrow> (\<forall>k'. \<not> run_at (pre @ rest) s k')
         | Some k \<Rightarrow> 0 \<le> k \<and> run_at (pre @ rest) s (nat k) \<and>
                     (\<forall>k'<nat k. \<not> run_at (pre @ rest) s k')"
  using assms
proof (induction rest arbitrary: pre c)
  case Nil
  then show ?case by simp
next
  case (Cons b rest)
  show ?case
  proof (cases b)
    case False
    have nw: "\<forall>k'. \<not> run_at (pre @ [False]) s k'"
      using run_at_append_last_False[OF Cons.prems(1) Cons.prems(6)] by blast
    have bF: "b = False" using False by simp
    have eq: "(pre @ [False]) @ rest = pre @ b # rest" using bF by simp
    have step: "find_sustained_drop_loop (b # rest) (int s) (int (length pre)) (int c)
                  = find_sustained_drop_loop rest (int s) (int (length (pre @ [False]))) (int 0)"
      using bF by (simp add: add.commute)
    have "case find_sustained_drop_loop rest (int s) (int (length (pre @ [False]))) (int 0) of
           None \<Rightarrow> (\<forall>k'. \<not> run_at ((pre @ [False]) @ rest) s k')
         | Some k \<Rightarrow> 0 \<le> k \<and> run_at ((pre @ [False]) @ rest) s (nat k) \<and>
                     (\<forall>k'<nat k. \<not> run_at ((pre @ [False]) @ rest) s k')"
      by (rule Cons.IH) (use Cons.prems nw in auto)
    then show ?thesis unfolding step eq .
  next
    case True
    then have bT: "b = True" by simp
    show ?thesis
    proof (cases "int c + 1 \<ge> int s")
      case True
      with Cons.prems have cs: "s = c + 1" by simp
      let ?k = "length pre - c"
      have ret: "find_sustained_drop_loop (b # rest) (int s) (int (length pre)) (int c)
                   = Some (int ?k)"
        using bT cs Cons.prems(3) by (simp add: of_nat_diff)
      have run: "run_at (pre @ b # rest) s ?k"
        unfolding run_at_def
      proof (intro conjI allI impI)
        show "?k + s \<le> length (pre @ b # rest)" using cs Cons.prems(3) by simp
      next
        fix j assume j: "j < s"
        show "(pre @ b # rest) ! (?k + j)"
        proof (cases "j < c")
          case True
          with Cons.prems(3) have "length pre - c + j < length pre" by arith
          moreover from True Cons.prems(4) have "pre ! (length pre - c + j)" by blast
          ultimately show ?thesis by (simp add: nth_append)
        next
          case False
          with j cs have "j = c" by simp
          with Cons.prems(3) have "length pre - c + j = length pre" by arith
          with bT show ?thesis by (simp add: nth_append)
        qed
      qed
      have first: "\<forall>k'<?k. \<not> run_at (pre @ b # rest) s k'"
      proof (intro allI impI notI)
        fix k' assume k': "k' < ?k" and r: "run_at (pre @ b # rest) s k'"
        from k' cs Cons.prems(3) have le: "k' + s \<le> length pre" by simp
        have "run_at pre s k'"
          unfolding run_at_def
        proof (intro conjI allI impI)
          show "k' + s \<le> length pre" by (rule le)
        next
          fix j assume "j < s"
          with r le show "pre ! (k' + j)" by (auto simp: run_at_def nth_append)
        qed
        with Cons.prems(6) show False by blast
      qed
      from ret run first show ?thesis by simp
    next
      case False
      then have lt: "c + 1 < s" by simp
      have nw: "\<forall>k'. \<not> run_at (pre @ [True]) s k'"
      proof (intro allI notI)
        fix k' assume r: "run_at (pre @ [True]) s k'"
        show False
        proof (cases "k' + s \<le> length pre")
          case True
          have "run_at pre s k'"
            unfolding run_at_def
          proof (intro conjI allI impI)
            show "k' + s \<le> length pre" by (rule True)
          next
            fix j assume "j < s"
            with r True show "pre ! (k' + j)" by (auto simp: run_at_def nth_append)
          qed
          with Cons.prems(6) show False by blast
        next
          case False
          with r have e: "k' + s = length pre + 1" by (auto simp: run_at_def)
          with lt have cl: "c < length pre" by simp
          with Cons.prems(5) have nf: "\<not> pre ! (length pre - c - 1)" by simp
          define j where "j = length pre - c - 1 - k'"
          from e lt cl have j: "j < s" "k' + j = length pre - c - 1" by (auto simp: j_def)
          from r j(1) have "(pre @ [True]) ! (k' + j)" by (simp add: run_at_def)
          with j(2) cl nf show False by (simp add: nth_append)
        qed
      qed
      have eq: "(pre @ [True]) @ rest = pre @ b # rest" using bT by simp
      have step: "find_sustained_drop_loop (b # rest) (int s) (int (length pre)) (int c)
                  = find_sustained_drop_loop rest (int s) (int (length (pre @ [True]))) (int (c + 1))"
        using bT lt by (simp add: add.commute)
      have "case find_sustained_drop_loop rest (int s) (int (length (pre @ [True]))) (int (c + 1)) of
           None \<Rightarrow> (\<forall>k'. \<not> run_at ((pre @ [True]) @ rest) s k')
         | Some k \<Rightarrow> 0 \<le> k \<and> run_at ((pre @ [True]) @ rest) s (nat k) \<and>
                     (\<forall>k'<nat k. \<not> run_at ((pre @ [True]) @ rest) s k')"
      proof (rule Cons.IH)
        show "0 < s" by (rule Cons.prems(1))
        show "c + 1 < s" by (rule lt)
        show "c + 1 \<le> length (pre @ [True])" using Cons.prems(3) by simp
        show "\<forall>j<c + 1. (pre @ [True]) ! (length (pre @ [True]) - (c + 1) + j)"
        proof (intro allI impI)
          fix j assume "j < c + 1"
          show "(pre @ [True]) ! (length (pre @ [True]) - (c + 1) + j)"
          proof (cases "j < c")
            case True
            with Cons.prems(3) have "length pre - c + j < length pre" by arith
            moreover from True Cons.prems(4) have "pre ! (length pre - c + j)" by blast
            moreover have "length (pre @ [True]) - (c + 1) + j = length pre - c + j" by simp
            ultimately show ?thesis by (simp add: nth_append)
          next
            case False
            with \<open>j < c + 1\<close> have "j = c" by simp
            with Cons.prems(3) have "length (pre @ [True]) - (c + 1) + j = length pre" by simp
            then show ?thesis by (simp add: nth_append)
          qed
        qed
        show "c + 1 = length (pre @ [True]) \<or>
              \<not> (pre @ [True]) ! (length (pre @ [True]) - (c + 1) - 1)"
          using Cons.prems(3,5) by (auto simp: nth_append)
        show "\<forall>k'. \<not> run_at (pre @ [True]) s k'" by (rule nw)
      qed
      then show ?thesis unfolding step eq .
    qed
  qed
qed


lemma find_sustained_drop_spec:
  assumes "0 < s"
  shows "case find_sustained_drop flags (int s) of
           None \<Rightarrow> (\<forall>k. \<not> run_at flags s k)
         | Some k \<Rightarrow> 0 \<le> k \<and> first_run flags s (nat k)"
proof -
  have nr: "\<forall>k'. \<not> run_at [] s k'" using assms by (simp add: run_at_def)
  have "case find_sustained_drop_loop flags (int s) (int (length ([]::bool list))) (int 0) of
           None \<Rightarrow> (\<forall>k'. \<not> run_at ([] @ flags) s k')
         | Some k \<Rightarrow> 0 \<le> k \<and> run_at ([] @ flags) s (nat k) \<and>
                     (\<forall>k'<nat k. \<not> run_at ([] @ flags) s k')"
    by (rule find_loop_inv) (use assms nr in simp_all)
  then show ?thesis by (auto simp: find_sustained_drop_def first_run_def split: option.splits)
qed


lemma find_sustained_drop_Some:
  "0 < s \<Longrightarrow> find_sustained_drop flags (int s) = Some k \<Longrightarrow> 0 \<le> k \<and> first_run flags s (nat k)"
  using find_sustained_drop_spec[of s flags] by simp

lemma first_run_bound: "0 < s \<Longrightarrow> first_run flags s k \<Longrightarrow> k < length flags \<and> flags ! k"
proof -
  assume s: "0 < s" and f: "first_run flags s k"
  then have "k + s \<le> length flags" and "\<forall>j<s. flags ! (k + j)"
    by (simp_all add: first_run_def run_at_def)
  with s have "k < length flags" and "flags ! (k + 0)" by (simp, blast)
  then show ?thesis by simp
qed

lemma first_run_unique: "first_run flags s k \<Longrightarrow> first_run flags s k' \<Longrightarrow> k = k'"
  unfolding first_run_def by (meson nat_neq_iff)


lemma length_smooth: "length (smooth data w) = length data"
  by (simp add: smooth_def Let_def)

lemma init_Inr:
  "ANTCalculator_init b d w s = Inr self \<longleftrightarrow>
     3 \<le> b \<and> 0 < d \<and> d < 1 \<and> 1 \<le> w \<and> 1 \<le> s \<and>
     self = \<lparr>baseline_reps = b, drop_threshold = d, smoothing_window = w, sustain_count = s\<rparr>"
  by (auto simp: ANTCalculator_init_def)

lemma calculate_normal:
  assumes init: "ANTCalculator_init b d w s = Inr self"
    and enough: "b + s \<le> int (length (filter is_valid reps))"
    and pos: "0 < np_mean (take (nat b) (map peak_speed (filter is_valid reps)))"
  shows "calculate self reps =
     (let valid_reps = filter is_valid reps;
          speeds = map peak_speed valid_reps;
          baseline = np_mean (take (nat b) speeds);
          smoothed = smooth speeds w;
          below_threshold = map (\<lambda>v. v < baseline * (1 - d)) smoothed
      in case find_sustained_drop below_threshold s of
           None \<Rightarrow>
             Inr \<lparr>ant_reached = False, ant_rep_index = None, ant_timestamp_seconds = None,
                  baseline_speed = baseline, drop_percent_at_ant = None,
                  smoothed_speeds = smoothed, threshold_flags = below_threshold\<rparr>
         | Some k \<Rightarrow>
             Inr \<lparr>ant_reached = True, ant_rep_index = Some k,
                  ant_timestamp_seconds = Some (start_time (valid_reps ! nat k)),
                  baseline_speed = baseline,
                  drop_percent_at_ant = Some ((baseline - smoothed ! nat k) / baseline),
                  smoothed_speeds = smoothed, threshold_flags = below_threshold\<rparr>)"
proof -
  from init have cfg: "3 \<le> b" "0 < d" "d < 1" "1 \<le> w" "1 \<le> s"
    and self: "self = \<lparr>baseline_reps = b, drop_threshold = d, smoothing_window = w, sustain_count = s\<rparr>"
    by (simp_all add: init_Inr)
  let ?valid = "filter is_valid reps"
  let ?speeds = "map peak_speed ?valid"
  let ?baseline = "np_mean (take (nat b) ?speeds)"
  let ?smoothed = "smooth ?speeds w"
  let ?flags = "map (\<lambda>v. v < ?baseline * (1 - d)) ?smoothed"
  have ne: "py_take ?speeds b \<noteq> []" using cfg enough by (auto simp: py_take_def)
  have pt: "py_take ?speeds b = take (nat b) ?speeds" using cfg by (simp add: py_take_def)
  have len: "length ?flags = length ?valid" by (simp add: length_smooth)
  show ?thesis
  proof (cases "find_sustained_drop ?flags s")
    case None
    with enough pos ne pt show ?thesis
      by (simp add: calculate_def self Let_def)
  next
    case (Some k)
    from cfg have s: "0 < nat s" "int (nat s) = s" by simp_all
    from Some s have "0 \<le> k \<and> first_run ?flags (nat s) (nat k)"
      using find_sustained_drop_Some[of "nat s" ?flags k] by simp
    with first_run_bound[OF s(1), of ?flags "nat k"] len
    have k: "0 \<le> k" "nat k < length ?valid" by simp_all
    then have g1: "py_get ?valid k = Inr (?valid ! nat k)" by (auto simp: py_get_def Let_def)
    from k have g2: "py_get ?smoothed k = Inr (?smoothed ! nat k)"
      by (auto simp: py_get_def Let_def length_smooth)
    from Some enough pos ne pt g1 g2 show ?thesis
      by (simp add: calculate_def self Let_def)
  qed
qed

section \<open>Properties of the threshold detector\<close>


lemma calculate_returns:
  assumes init: "ANTCalculator_init b d w s = Inr self"
  shows "\<exists>res. calculate self reps = Inr res"
proof -
  from init have cfg: "3 \<le> b" "1 \<le> s"
    and self: "self = \<lparr>baseline_reps = b, drop_threshold = d, smoothing_window = w, sustain_count = s\<rparr>"
    by (simp_all add: init_Inr)
  let ?speeds = "map peak_speed (filter is_valid reps)"
  show ?thesis
  proof (cases "int (length (filter is_valid reps)) < b + s")
    case True
    then show ?thesis by (simp add: calculate_def self)
  next
    case False
    then have enough: "b + s \<le> int (length (filter is_valid reps))" by simp
    have ne: "py_take ?speeds b \<noteq> []" using cfg enough by (auto simp: py_take_def)
    have pt: "py_take ?speeds b = take (nat b) ?speeds" using cfg by (simp add: py_take_def)
    show ?thesis
    proof (cases "np_mean (take (nat b) ?speeds) \<le> 0")
      case True
      with False ne pt show ?thesis by (simp add: calculate_def self Let_def)
    next
      case False
      then have "0 < np_mean (take (nat b) ?speeds)" by simp
      from calculate_normal[OF init enough this] show ?thesis
        by (auto simp: Let_def split: option.splits)
    qed
  qed
qed

text \<open>
  Claim C8. Constructing an \<open>ANTCalculator\<close> raises \<open>ValueError\<close> if and only if one of
  \<open>baseline_reps >= 3\<close>, \<open>0 < drop_threshold < 1\<close>, \<open>smoothing_window >= 1\<close>,
  \<open>sustain_count >= 1\<close> is violated. When all four hold, the constructor returns an
  instance, and \<open>calculate\<close> on that instance returns a result for every rep sequence:
  it raises no error at analysis time.
\<close>

theorem ANTCalculator_init_raises_iff:
  "((\<exists>msg. ANTCalculator_init b d w s = Inl (ValueError msg)) \<longleftrightarrow>
      \<not> (3 \<le> b \<and> 0 < d \<and> d < 1 \<and> 1 \<le> w \<and> 1 \<le> s)) \<and>
   (3 \<le> b \<and> 0 < d \<and> d < 1 \<and> 1 \<le> w \<and> 1 \<le> s \<longrightarrow>
      (\<exists>self. ANTCalculator_init b d w s = Inr self \<and>
         (\<forall>reps. \<exists>res. calculate self reps = Inr res)))"
proof (intro conjI impI)
  show "(\<exists>msg. ANTCalculator_init b d w s = Inl (ValueError msg)) \<longleftrightarrow>
      \<not> (3 \<le> b \<and> 0 < d \<and> d < 1 \<and> 1 \<le> w \<and> 1 \<le> s)"
    by (auto simp: ANTCalculator_init_def)
next
  assume ok: "3 \<le> b \<and> 0 < d \<and> d < 1 \<and> 1 \<le> w \<and> 1 \<le> s"
  then obtain self where i: "ANTCalculator_init b d w s = Inr self"
    by (auto simp: init_Inr)
  with calculate_returns[OF i] show "\<exists>self. ANTCalculator_init b d w s = Inr self \<and>
         (\<forall>reps. \<exists>res. calculate self reps = Inr res)" by blast
qed

theorem ANTCalculator_init_raises_iff_witness:
  "ANTCalculator_init 5 (2 / 10) 3 2 =
     Inr \<lparr>baseline_reps = 5, drop_threshold = 2 / 10, smoothing_window = 3, sustain_count = 2\<rparr> \<and>
   (\<exists>res. calculate \<lparr>baseline_reps = 5, drop_threshold = 2 / 10, smoothing_window = 3,
                      sustain_count = 2\<rparr> sustained_drop_reps = Inr res) \<and>
   (\<exists>msg. ANTCalculator_init 2 (2 / 10) 3 2 = Inl (ValueError msg)) \<and>
   (\<exists>msg. ANTCalculator_init 5 1 3 2 = Inl (ValueError msg)) \<and>
   (\<exists>msg. ANTCalculator_init 5 (2 / 10) 0 2 = Inl (ValueError msg)) \<and>
   (\<exists>msg. ANTCalculator_init 5 (2 / 10) 3 0 = Inl (ValueError msg))"
proof -
  have i: "ANTCalculator_init 5 (2 / 10) 3 2 =
     Inr \<lparr>baseline_reps = 5, drop_threshold = 2 / 10, smoothing_window = 3, sustain_count = 2\<rparr>"
    by (simp add: ANTCalculator_init_def)
  have "\<exists>self. ANTCalculator_init 5 (2 / 10) 3 2 = Inr self \<and>
         (\<forall>reps. \<exists>res. calculate self reps = Inr res)"
    using ANTCalculator_init_raises_iff[of 5 "2 / 10" 3 2] by simp
  with i have c: "\<exists>res. calculate \<lparr>baseline_reps = 5, drop_threshold = 2 / 10,
      smoothing_window = 3, sustain_count = 2\<rparr> sustained_drop_reps = Inr res"
    by auto
  have e1: "\<exists>msg. ANTCalculator_init 2 (2 / 10) 3 2 = Inl (ValueError msg)"
    using ANTCalculator_init_raises_iff[of 2 "2 / 10" 3 2] by simp
  have e2: "\<exists>msg. ANTCalculator_init 5 1 3 2 = Inl (ValueError msg)"
    using ANTCalculator_init_raises_iff[of 5 1 3 2] by simp
  have e3: "\<exists>msg. ANTCalculator_init 5 (2 / 10) 0 2 = Inl (ValueError msg)"
    using ANTCalculator_init_raises_iff[of 5 "2 / 10" 0 2] by simp
  have e4: "\<exists>msg. ANTCalculator_init 5 (2 / 10) 3 0 = Inl (ValueError msg)"
    using ANTCalculator_init_raises_iff[of 5 "2 / 10" 3 0] by simp
  from i c e1 e2 e3 e4 show ?thesis by blast
qed

text \<open>
  Claim C2. For a constructed calculator and every rep sequence, \<open>calculate\<close> returns the
  insufficient-data result (\<open>ant_reached\<close> false, \<open>baseline_speed\<close> 0, \<open>smoothed_speeds\<close> and
  \<open>threshold_flags\<close> empty, the three optional fields unset) if and only if the number of
  reps with \<open>is_valid\<close> true is strictly less than \<open>baseline_reps + sustain_count\<close>; in
  particular with \<open>baseline_reps = 5\<close>, \<open>sustain_count = 2\<close> and exactly six valid reps.
\<close>

theorem calculate_insufficient_iff:
  assumes init: "ANTCalculator_init b d w s = Inr self"
  shows "(calculate self reps =
            Inr \<lparr>ant_reached = False, ant_rep_index = None, ant_timestamp_seconds = None,
                 baseline_speed = 0, drop_percent_at_ant = None,
                 smoothed_speeds = [], threshold_flags = []\<rparr>
          \<longleftrightarrow> int (length (filter is_valid reps)) < b + s) \<and>
         (b = 5 \<and> s = 2 \<and> length (filter is_valid reps) = 6 \<longrightarrow>
          calculate self reps =
            Inr \<lparr>ant_reached = False, ant_rep_index = None, ant_timestamp_seconds = None,
                 baseline_speed = 0, drop_percent_at_ant = None,
                 smoothed_speeds = [], threshold_flags = []\<rparr>)"
proof -
  let ?insufficient = "\<lparr>ant_reached = False, ant_rep_index = None, ant_timestamp_seconds = None,
                 baseline_speed = 0, drop_percent_at_ant = None,
                 smoothed_speeds = [], threshold_flags = []\<rparr>"
  have iff: "calculate self reps = Inr ?insufficient
          \<longleftrightarrow> int (length (filter is_valid reps)) < b + s"
  proof -
    from init have cfg: "3 \<le> b" "1 \<le> s"
      and self: "self = \<lparr>baseline_reps = b, drop_threshold = d, smoothing_window = w, sustain_count = s\<rparr>"
      by (simp_all add: init_Inr)
    let ?speeds = "map peak_speed (filter is_valid reps)"
    show ?thesis
    proof (cases "int (length (filter is_valid reps)) < b + s")
      case True
      then show ?thesis by (simp add: calculate_def self insufficient_data_def)
    next
      case False
      then have enough: "b + s \<le> int (length (filter is_valid reps))" by simp
      have ne: "py_take ?speeds b \<noteq> []" using cfg enough by (auto simp: py_take_def)
      have pt: "py_take ?speeds b = take (nat b) ?speeds" using cfg by (simp add: py_take_def)
      from cfg enough have sne: "?speeds \<noteq> []" by auto
      show ?thesis
      proof (cases "np_mean (take (nat b) ?speeds) \<le> 0")
        case True
        with False ne pt sne show ?thesis by (simp add: calculate_def self Let_def)
      next
        case F: False
        then have pos: "0 < np_mean (take (nat b) ?speeds)" by simp
        have "\<exists>res. calculate self reps = Inr res \<and> baseline_speed res = np_mean (take (nat b) ?speeds)"
          using calculate_normal[OF init enough pos] by (auto simp: Let_def split: option.splits)
        with pos False show ?thesis by auto
      qed
    qed
  qed
  then show ?thesis by simp
qed

theorem calculate_insufficient_iff_witness:
  "ANTCalculator_init 5 (2 / 10) 3 2 =
     Inr \<lparr>baseline_reps = 5, drop_threshold = 2 / 10, smoothing_window = 3, sustain_count = 2\<rparr> \<and>
   length (filter is_valid six_reps) = 6 \<and>
   calculate \<lparr>baseline_reps = 5, drop_threshold = 2 / 10, smoothing_window = 3,
              sustain_count = 2\<rparr> six_reps =
     Inr \<lparr>ant_reached = False, ant_rep_index = None, ant_timestamp_seconds = None,
          baseline_speed = 0, drop_percent_at_ant = None,
          smoothed_speeds = [], threshold_flags = []\<rparr> \<and>
   length (filter is_valid sustained_drop_reps) = 8 \<and>
   calculate \<lparr>baseline_reps = 5, drop_threshold = 2 / 10, smoothing_window = 3,
              sustain_count = 2\<rparr> sustained_drop_reps \<noteq>
     Inr \<lparr>ant_reached = False, ant_rep_index = None, ant_timestamp_seconds = None,
          baseline_speed = 0, drop_percent_at_ant = None,
          smoothed_speeds = [], threshold_flags = []\<rparr>"
proof -
  have i: "ANTCalculator_init 5 (2 / 10) 3 2 =
     Inr \<lparr>baseline_reps = 5, drop_threshold = 2 / 10, smoothing_window = 3, sustain_count = 2\<rparr>"
    by (simp add: ANTCalculator_init_def)
  have l6: "length (filter is_valid six_reps) = 6"
    by (simp add: six_reps_def rep_with_speed_def)
  have l8: "length (filter is_valid sustained_drop_reps) = 8"
    by (simp add: sustained_drop_reps_def rep_with_speed_def)
  from calculate_insufficient_iff[OF i, of six_reps] l6
  have a: "calculate \<lparr>baseline_reps = 5, drop_threshold = 2 / 10, smoothing_window = 3,
              sustain_count = 2\<rparr> six_reps =
     Inr \<lparr>ant_reached = False, ant_rep_index = None, ant_timestamp_seconds = None,
          baseline_speed = 0, drop_percent_at_ant = None,
          smoothed_speeds = [], threshold_flags = []\<rparr>" by simp
  from calculate_insufficient_iff[OF i, of sustained_drop_reps] l8
  have b: "calculate \<lparr>baseline_reps = 5, drop_threshold = 2 / 10, smoothing_window = 3,
              sustain_count = 2\<rparr> sustained_drop_reps \<noteq>
     Inr \<lparr>ant_reached = False, ant_rep_index = None, ant_timestamp_seconds = None,
          baseline_speed = 0, drop_percent_at_ant = None,
          smoothed_speeds = [], threshold_flags = []\<rparr>" by simp
  from i l6 a l8 b show ?thesis by blast
qed

lemma sustained_drop_reps_speeds:
  "map peak_speed (filter is_valid sustained_drop_reps) = [1, 1, 1, 1, 1, 1 / 2, 1 / 2, 1 / 2]"
  by (simp add: sustained_drop_reps_def rep_with_speed_def)

lemma find_sustained_drop_scenario:
  "find_sustained_drop [False, False, False, False, False, True, True, True] 2 = Some 5"
  by (simp add: find_sustained_drop_def)


section \<open>The threshold detector on doubles\<close>

text \<open>The exponent search finds the binade of every number between \<open>2^-1100\<close> and
  \<open>2^1101\<close>.\<close>

lemma pow2_powr: "pow2 e = 2 powr of_int e"
  by (simp add: pow2_def powr_real_of_int inverse_eq_divide)

lemma pow2_Suc: "pow2 (e + 1) = 2 * pow2 e"
  by (simp add: pow2_powr powr_add)

lemma pow2_pred: "pow2 (e - 1) = pow2 e / 2"
  by (simp add: pow2_powr powr_diff)

lemma binade_search_bounds:
  "0 < x \<Longrightarrow> 1 \<le> x * 2 ^ n \<Longrightarrow> x < 2 * 2 ^ n \<Longrightarrow>
     pow2 (binade_search n x) \<le> x \<and> x < pow2 (binade_search n x + 1)"
proof (induction n arbitrary: x)
  case 0
  then show ?case by (simp add: pow2_def)
next
  case (Suc n)
  show ?case
  proof (cases "2 \<le> x")
    case True
    have "1 * 1 \<le> (x / 2) * 2 ^ n"
      using True by (intro mult_mono) simp_all
    with Suc.prems True have "pow2 (binade_search n (x / 2)) \<le> x / 2 \<and>
        x / 2 < pow2 (binade_search n (x / 2) + 1)"
      by (intro Suc.IH) simp_all
    moreover have "pow2 (binade_search n (x / 2) + 1 + 1) = 2 * (2 * pow2 (binade_search n (x / 2)))"
      by (simp only: pow2_Suc)
    ultimately show ?thesis using True by (simp add: pow2_Suc)
  next
    case False
    show ?thesis
    proof (cases "x < 1")
      case True
      have x2: "x * 2 < 2 * 2 ^ n"
      proof -
        have "(1::real) \<le> 2 ^ n" by simp
        with True show ?thesis by linarith
      qed
      from Suc.prems True x2 have "pow2 (binade_search n (x * 2)) \<le> x * 2 \<and>
          x * 2 < pow2 (binade_search n (x * 2) + 1)"
        by (intro Suc.IH) (simp_all add: mult.assoc)
      with True False show ?thesis by (simp add: pow2_Suc pow2_pred)
    next
      case F: False
      with False show ?thesis by (simp add: pow2_def)
    qed
  qed
qed

lemma binade_bounds:
  assumes "1 / 2 ^ 1100 \<le> \<bar>x\<bar>" "\<bar>x\<bar> < 2 ^ 1101"
  shows "pow2 (binade x) \<le> \<bar>x\<bar> \<and> \<bar>x\<bar> < pow2 (binade x + 1)"
proof -
  from assms(1) have pos: "0 < \<bar>x\<bar>" by (smt (verit) divide_pos_pos zero_less_power)
  from assms(1) have a: "1 \<le> \<bar>x\<bar> * 2 ^ 1100" by (simp add: pos_divide_le_eq)
  from assms(2) have b: "\<bar>x\<bar> < 2 * 2 ^ 1100" by simp
  from binade_search_bounds[OF pos a b] show ?thesis by (simp add: binade_def)
qed

lemma length_smooth_double: "length (smooth_double mean data w) = length data"
  by (simp add: smooth_double_def Let_def)

lemma calculate_double_normal:
  assumes init: "ANTCalculator_init b d w s = Inr self"
    and enough: "b + s \<le> int (length (filter is_valid reps))"
    and pos: "0 < mean (take (nat b) (map peak_speed (filter is_valid reps)))"
  shows "calculate_double mean self reps =
     (let valid_reps = filter is_valid reps;
          speeds = map peak_speed valid_reps;
          baseline = mean (take (nat b) speeds);
          smoothed = smooth_double mean speeds w;
          below_threshold = map (\<lambda>v. v < fl (baseline * fl (1 - d))) smoothed
      in case find_sustained_drop below_threshold s of
           None \<Rightarrow>
             Inr \<lparr>ant_reached = False, ant_rep_index = None, ant_timestamp_seconds = None,
                  baseline_speed = baseline, drop_percent_at_ant = None,
                  smoothed_speeds = smoothed, threshold_flags = below_threshold\<rparr>
         | Some k \<Rightarrow>
             Inr \<lparr>ant_reached = True, ant_rep_index = Some k,
                  ant_timestamp_seconds = Some (start_time (valid_reps ! nat k)),
                  baseline_speed = baseline,
                  drop_percent_at_ant =
                    Some (fl (fl (baseline - smoothed ! nat k) / baseline)),
                  smoothed_speeds = smoothed, threshold_flags = below_threshold\<rparr>)"
proof -
  from init have cfg: "3 \<le> b" "0 < d" "d < 1" "1 \<le> w" "1 \<le> s"
    and self: "self = \<lparr>baseline_reps = b, drop_threshold = d, smoothing_window = w, sustain_count = s\<rparr>"
    by (simp_all add: init_Inr)
  let ?valid = "filter is_valid reps"
  let ?speeds = "map peak_speed ?valid"
  let ?baseline = "mean (take (nat b) ?speeds)"
  let ?smoothed = "smooth_double mean ?speeds w"
  let ?flags = "map (\<lambda>v. v < fl (?baseline * fl (1 - d))) ?smoothed"
  have ne: "py_take ?speeds b \<noteq> []" using cfg enough by (auto simp: py_take_def)
  have pt: "py_take ?speeds b = take (nat b) ?speeds" using cfg by (simp add: py_take_def)
  have len: "length ?flags = length ?valid" by (simp add: length_smooth_double)
  show ?thesis
  proof (cases "find_sustained_drop ?flags s")
    case None
    with enough pos ne pt show ?thesis
      by (simp add: calculate_double_def self Let_def)
  next
    case (Some k)
    from cfg have s: "0 < nat s" "int (nat s) = s" by simp_all
    from Some s have "0 \<le> k \<and> first_run ?flags (nat s) (nat k)"
      using find_sustained_drop_Some[of "nat s" ?flags k] by simp
    with first_run_bound[OF s(1), of ?flags "nat k"] len
    have k: "0 \<le> k" "nat k < length ?valid" by simp_all
    then have g1: "py_get ?valid k = Inr (?valid ! nat k)" by (auto simp: py_get_def)
    from k have g2: "py_get ?smoothed k = Inr (?smoothed ! nat k)"
      by (auto simp: py_get_def length_smooth_double)
    from Some enough pos ne pt g1 g2 show ?thesis
      by (simp add: calculate_double_def self Let_def)
  qed
qed

text \<open>
  Claim C10, amended. On doubles, for a constructed calculator, every summation order of
  \<open>np.mean\<close> and every rep sequence: whenever the result of \<open>calculate\<close> has \<open>ant_reached\<close>
  true, its \<open>baseline_speed\<close> is strictly positive, \<open>ant_rep_index\<close> is an index into the
  sequence of valid reps, the flag at that index is set, that is, the smoothed speed at the
  index is below the threshold speed \<open>baseline_speed * (1 - drop_threshold)\<close> as computed,
  and \<open>drop_percent_at_ant\<close> is the computed
  \<open>(baseline_speed - smoothed_speeds[ant_rep_index]) / baseline_speed\<close>. (It need not exceed
  \<open>drop_threshold\<close>.)
\<close>

theorem ant_reached_on_doubles:
  assumes init: "ANTCalculator_init b d w s = Inr self"
    and res: "calculate_double mean self reps = Inr res"
    and reached: "ant_reached res"
  shows "0 < baseline_speed res \<and>
         (\<exists>k. ant_rep_index res = Some k \<and> 0 \<le> k \<and> k < int (length (filter is_valid reps)) \<and>
              threshold_flags res ! nat k \<and>
              smoothed_speeds res ! nat k < fl (baseline_speed res * fl (1 - d)) \<and>
              drop_percent_at_ant res =
                Some (fl (fl (baseline_speed res - smoothed_speeds res ! nat k) /
                          baseline_speed res)))"
proof -
  from init have cfg: "3 \<le> b" "1 \<le> s" "0 < d"
    and self: "self = \<lparr>baseline_reps = b, drop_threshold = d, smoothing_window = w, sustain_count = s\<rparr>"
    by (simp_all add: init_Inr)
  let ?valid = "filter is_valid reps"
  let ?speeds = "map peak_speed ?valid"
  let ?baseline = "mean (take (nat b) ?speeds)"
  let ?smoothed = "smooth_double mean ?speeds w"
  let ?flags = "map (\<lambda>v. v < fl (?baseline * fl (1 - d))) ?smoothed"
  have enough: "b + s \<le> int (length ?valid)"
  proof (rule ccontr)
    assume "\<not> ?thesis"
    then have "calculate_double mean self reps = Inr insufficient_data"
      by (simp add: calculate_double_def self)
    with res reached show False by (auto simp: insufficient_data_def)
  qed
  have ne: "py_take ?speeds b \<noteq> []" using cfg enough by (auto simp: py_take_def)
  have pt: "py_take ?speeds b = take (nat b) ?speeds" using cfg by (simp add: py_take_def)
  have pos: "0 < ?baseline"
  proof (rule ccontr)
    assume "\<not> ?thesis"
    with enough ne pt have "\<not> ant_reached (projr (calculate_double mean self reps))"
      by (simp add: calculate_double_def self Let_def)
    with res reached show False by simp
  qed
  note normal = calculate_double_normal[where mean = mean, OF init enough pos]
  show ?thesis
  proof (cases "find_sustained_drop ?flags s")
    case None
    with normal res reached show ?thesis by (auto simp: Let_def)
  next
    case (Some k)
    with normal res have r: "res = \<lparr>ant_reached = True, ant_rep_index = Some k,
                  ant_timestamp_seconds = Some (start_time (?valid ! nat k)),
                  baseline_speed = ?baseline,
                  drop_percent_at_ant =
                    Some (fl (fl (?baseline - ?smoothed ! nat k) / ?baseline)),
                  smoothed_speeds = ?smoothed, threshold_flags = ?flags\<rparr>"
      by (simp add: Let_def)
    from cfg have s: "0 < nat s" "int (nat s) = s" by simp_all
    from Some s have fr: "0 \<le> k" "first_run ?flags (nat s) (nat k)"
      using find_sustained_drop_Some[of "nat s" ?flags k] by simp_all
    from first_run_bound[OF s(1) fr(2)]
    have kb: "nat k < length ?valid" and fl: "?flags ! nat k"
      by (simp_all add: length_smooth_double)
    from kb have "nat k < length ?smoothed" by (simp add: length_smooth_double)
    with fl have lt: "?smoothed ! nat k < fl (?baseline * fl (1 - d))" by simp
    with r pos fr(1) kb fl show ?thesis by simp
  qed
qed

lemma binade_search_step:
  "0 < n \<Longrightarrow> binade_search n x =
     (if 2 \<le> x then binade_search (n - 1) (x / 2) + 1
      else if x < 1 then binade_search (n - 1) (x * 2) - 1
      else 0)"
  by (cases n) simp_all

lemmas fl_eval = fl_def binade_def binade_search_step round_half_even_def Let_def pow2_def

lemma near_threshold_speeds:
  "map peak_speed (filter is_valid near_threshold_reps) =
     [9, 9, 9, 9, 9, double_below_0_9, double_below_0_9]"
  by (simp add: near_threshold_reps_def rep_with_speed_def)

lemma mean_sequential_nines: "mean_sequential [9, 9, 9, 9, 9] = 9"
  by (simp add: mean_sequential_def fl_eval)

lemma near_threshold_doubles:
  "fl 9 = 9 \<and> fl double_0_9 = double_0_9 \<and> fl double_below_0_9 = double_below_0_9"
  by (simp add: double_0_9_def double_below_0_9_def fl_eval)

lemma init_near_threshold:
  "ANTCalculator_init 5 double_0_9 1 2 =
     Inr \<lparr>baseline_reps = 5, drop_threshold = double_0_9, smoothing_window = 1,
          sustain_count = 2\<rparr>"
  by (simp add: ANTCalculator_init_def double_0_9_def)

lemma near_threshold_speed: "fl (9 * fl (1 - double_0_9)) = 8106479329266891 / 2 ^ 53"
  by (simp add: double_0_9_def fl_eval)

lemma near_threshold_drop: "fl (fl (9 - double_below_0_9) / 9) = 8106479329266892 / 2 ^ 53"
  by (simp add: double_below_0_9_def fl_eval)

lemma find_sustained_drop_near_threshold:
  "find_sustained_drop [False, False, False, False, False, True, True] 2 = Some 5"
  by (simp add: find_sustained_drop_def)

lemma calculate_double_near_threshold:
  "calculate_double mean_sequential
     \<lparr>baseline_reps = 5, drop_threshold = double_0_9, smoothing_window = 1, sustain_count = 2\<rparr>
     near_threshold_reps =
   Inr \<lparr>ant_reached = True, ant_rep_index = Some 5, ant_timestamp_seconds = Some 5,
        baseline_speed = 9, drop_percent_at_ant = Some (8106479329266892 / 2 ^ 53),
        smoothed_speeds = [9, 9, 9, 9, 9, double_below_0_9, double_below_0_9],
        threshold_flags = [False, False, False, False, False, True, True]\<rparr>"
proof -
  have enough: "5 + 2 \<le> int (length (filter is_valid near_threshold_reps))"
    by (simp add: near_threshold_reps_def rep_with_speed_def)
  have pos: "0 < mean_sequential
      (take (nat 5) (map peak_speed (filter is_valid near_threshold_reps)))"
    unfolding near_threshold_speeds by (simp add: mean_sequential_nines)
  have st: "start_time (filter is_valid near_threshold_reps ! 5) = 5"
    by (simp add: near_threshold_reps_def rep_with_speed_def)
  have lt: "double_below_0_9 < 8106479329266891 / 2 ^ 53" "\<not> (9::real) < 8106479329266891 / 2 ^ 53"
    by (simp_all add: double_below_0_9_def)
  show ?thesis
    using calculate_double_normal[where mean = mean_sequential,
        OF init_near_threshold enough pos, unfolded Let_def near_threshold_speeds]
    by (simp add: mean_sequential_nines smooth_double_def near_threshold_speed lt[simplified]
          find_sustained_drop_near_threshold st near_threshold_drop)
qed

text \<open>With \<open>baseline_reps = 5\<close>, \<open>drop_threshold = 0.9\<close>, window 1, \<open>sustain_count = 2\<close>,
  five valid reps at speed 9.0 and two at 0.8999999999999997: the baseline is 9.0, the
  threshold speed is 0.8999999999999998, the last two flags are set, \<open>ant_reached\<close> is true
  at index 5, and \<open>drop_percent_at_ant\<close> is 0.8999999999999999, below \<open>drop_threshold\<close>.\<close>

theorem drop_percent_below_threshold_counterexample:
  "fl 9 = 9 \<and> fl double_0_9 = double_0_9 \<and> fl double_below_0_9 = double_below_0_9 \<and>
   ANTCalculator_init 5 double_0_9 1 2 =
     Inr \<lparr>baseline_reps = 5, drop_threshold = double_0_9, smoothing_window = 1,
          sustain_count = 2\<rparr> \<and>
   calculate_double mean_sequential
     \<lparr>baseline_reps = 5, drop_threshold = double_0_9, smoothing_window = 1, sustain_count = 2\<rparr>
     near_threshold_reps =
   Inr \<lparr>ant_reached = True, ant_rep_index = Some 5, ant_timestamp_seconds = Some 5,
        baseline_speed = 9, drop_percent_at_ant = Some (8106479329266892 / 2 ^ 53),
        smoothed_speeds = [9, 9, 9, 9, 9, double_below_0_9, double_below_0_9],
        threshold_flags = [False, False, False, False, False, True, True]\<rparr> \<and>
   the (drop_percent_at_ant (projr (calculate_double mean_sequential
     \<lparr>baseline_reps = 5, drop_threshold = double_0_9, smoothing_window = 1, sustain_count = 2\<rparr>
     near_threshold_reps)))
     < drop_threshold
         \<lparr>baseline_reps = 5, drop_threshold = double_0_9, smoothing_window = 1,
          sustain_count = 2\<rparr>"
proof -
  have "(8106479329266892 / 2 ^ 53 :: real) < double_0_9" by (simp add: double_0_9_def)
  with near_threshold_doubles init_near_threshold calculate_double_near_threshold
  show ?thesis by simp
qed

lemma mean_sequential_ones: "mean_sequential [1, 1, 1, 1, 1] = 1"
  by (simp add: mean_sequential_def fl_eval)

lemma init_double_0_2:
  "ANTCalculator_init 5 double_0_2 1 2 =
     Inr \<lparr>baseline_reps = 5, drop_threshold = double_0_2, smoothing_window = 1,
          sustain_count = 2\<rparr>"
  by (simp add: ANTCalculator_init_def double_0_2_def)

lemma calculate_double_sustained_drop:
  "calculate_double mean_sequential
     \<lparr>baseline_reps = 5, drop_threshold = double_0_2, smoothing_window = 1, sustain_count = 2\<rparr>
     sustained_drop_reps =
   Inr \<lparr>ant_reached = True, ant_rep_index = Some 5, ant_timestamp_seconds = Some 5,
        baseline_speed = 1, drop_percent_at_ant = Some (1 / 2),
        smoothed_speeds = [1, 1, 1, 1, 1, 1 / 2, 1 / 2, 1 / 2],
        threshold_flags = [False, False, False, False, False, True, True, True]\<rparr>"
proof -
  have enough: "5 + 2 \<le> int (length (filter is_valid sustained_drop_reps))"
    by (simp add: sustained_drop_reps_def rep_with_speed_def)
  have pos: "0 < mean_sequential
      (take (nat 5) (map peak_speed (filter is_valid sustained_drop_reps)))"
    unfolding sustained_drop_reps_speeds by (simp add: mean_sequential_ones)
  have st: "start_time (filter is_valid sustained_drop_reps ! 5) = 5"
    by (simp add: sustained_drop_reps_def rep_with_speed_def)
  show ?thesis
    using calculate_double_normal[where mean = mean_sequential,
        OF init_double_0_2 enough pos, unfolded Let_def sustained_drop_reps_speeds]
    by (simp add: mean_sequential_ones smooth_double_def double_0_2_def fl_eval
          find_sustained_drop_scenario st)
qed

theorem ant_reached_on_doubles_witness:
  "ANTCalculator_init 5 double_0_2 1 2 =
     Inr \<lparr>baseline_reps = 5, drop_threshold = double_0_2, smoothing_window = 1,
          sustain_count = 2\<rparr> \<and>
   (\<exists>res. calculate_double mean_sequential
            \<lparr>baseline_reps = 5, drop_threshold = double_0_2, smoothing_window = 1,
             sustain_count = 2\<rparr> sustained_drop_reps = Inr res \<and>
          ant_reached res \<and> 0 < baseline_speed res \<and>
          (\<exists>k. ant_rep_index res = Some k \<and> 0 \<le> k \<and>
               k < int (length (filter is_valid sustained_drop_reps)) \<and>
               threshold_flags res ! nat k \<and>
               smoothed_speeds res ! nat k < fl (baseline_speed res * fl (1 - double_0_2))))"
proof -
  let ?res = "\<lparr>ant_reached = True, ant_rep_index = Some 5, ant_timestamp_seconds = Some 5,
        baseline_speed = 1, drop_percent_at_ant = Some (1 / 2),
        smoothed_speeds = [1, 1, 1, 1, 1, 1 / 2, 1 / 2, 1 / 2],
        threshold_flags = [False, False, False, False, False, True, True, True]\<rparr>"
  have r: "ant_reached ?res" by simp
  from ant_reached_on_doubles[OF init_double_0_2 calculate_double_sustained_drop r]
  have "0 < baseline_speed ?res \<and>
         (\<exists>k. ant_rep_index ?res = Some k \<and> 0 \<le> k \<and>
              k < int (length (filter is_valid sustained_drop_reps)) \<and>
              threshold_flags ?res ! nat k \<and>
              smoothed_speeds ?res ! nat k < fl (baseline_speed ?res * fl (1 - double_0_2)) \<and>
              drop_percent_at_ant ?res =
                Some (fl (fl (baseline_speed ?res - smoothed_speeds ?res ! nat k) /
                          baseline_speed ?res)))" .
  with init_double_0_2 calculate_double_sustained_drop r show ?thesis by blast
qed





lemma np_mean_single: "np_mean [x] = x"
  by (simp add: np_mean_def)

lemma slice_single: "i < length xs \<Longrightarrow> slice xs i (Suc i) = [xs ! i]"
  by (simp add: slice_def take_Suc hd_drop_conv_nth)

lemma smooth_trimmed:
  assumes "1 \<le> w" "w \<le> int (length data)" "i < length data"
  shows "smooth data w ! i = trimmed_window_mean data w i"
proof (cases "w = 1")
  case True
  from assms(3) have "nat (min (int (length data)) (int i + 1)) = i + 1" by simp
  with True assms(3) show ?thesis
    by (simp add: smooth_def trimmed_window_mean_def slice_single np_mean_single)
next
  case False
  with assms show ?thesis
    by (simp add: smooth_def trimmed_window_mean_def Let_def)
qed

text \<open>
  Claim C5, amended. For a constructed calculator and every rep sequence that passes both
  gates, with \<open>n\<close> valid reps and smoothing window \<open>w\<close>: \<open>smoothed_speeds\<close> has length
  \<open>n\<close>; when \<open>w <= n\<close>, \<open>smoothed_speeds[i]\<close> is the mean of the raw speeds over the
  indices from \<open>max(0, i - w // 2)\<close> to \<open>min(n, i + w // 2 + 1)\<close> exclusive, for every
  \<open>i < n\<close>; when \<open>n < w\<close>, \<open>smoothed_speeds\<close> is the raw speed sequence, unsmoothed.
\<close>

theorem smoothed_speeds_trimmed_mean:
  assumes init: "ANTCalculator_init b d w s = Inr self"
    and enough: "b + s \<le> int (length (filter is_valid reps))"
    and pos: "0 < np_mean (take (nat b) (map peak_speed (filter is_valid reps)))"
  shows "\<exists>res. calculate self reps = Inr res \<and>
           length (smoothed_speeds res) = length (filter is_valid reps) \<and>
           (w \<le> int (length (filter is_valid reps)) \<longrightarrow>
              (\<forall>i < length (filter is_valid reps).
                 smoothed_speeds res ! i =
                   trimmed_window_mean (map peak_speed (filter is_valid reps)) w i)) \<and>
           (int (length (filter is_valid reps)) < w \<longrightarrow>
              smoothed_speeds res = map peak_speed (filter is_valid reps))"
proof -
  from init have cfg: "1 \<le> w" by (simp add: init_Inr)
  let ?speeds = "map peak_speed (filter is_valid reps)"
  have "\<exists>res. calculate self reps = Inr res \<and> smoothed_speeds res = smooth ?speeds w"
    using calculate_normal[OF init enough pos] by (auto simp: Let_def split: option.splits)
  then obtain res where r: "calculate self reps = Inr res"
    and sm: "smoothed_speeds res = smooth ?speeds w" by blast
  have l: "length (smoothed_speeds res) = length (filter is_valid reps)"
    by (simp add: sm length_smooth)
  have a: "w \<le> int (length (filter is_valid reps)) \<longrightarrow>
              (\<forall>i < length (filter is_valid reps).
                 smoothed_speeds res ! i = trimmed_window_mean ?speeds w i)"
    using cfg by (simp add: sm smooth_trimmed)
  have b: "int (length (filter is_valid reps)) < w \<longrightarrow> smoothed_speeds res = ?speeds"
    by (simp add: sm smooth_def)
  from r l a b show ?thesis by blast
qed

lemma rising_reps_speeds: "map peak_speed (filter is_valid rising_reps) = [1, 2, 3, 4]"
  by (simp add: rising_reps_def rep_with_speed_def)

lemma calculate_rising_reps:
  "calculate \<lparr>baseline_reps = 3, drop_threshold = 2 / 10, smoothing_window = 5,
              sustain_count = 1\<rparr> rising_reps =
   Inr \<lparr>ant_reached = True, ant_rep_index = Some 0, ant_timestamp_seconds = Some 0,
        baseline_speed = 2, drop_percent_at_ant = Some (1 / 2),
        smoothed_speeds = [1, 2, 3, 4],
        threshold_flags = [True, False, False, False]\<rparr>"
proof -
  have init: "ANTCalculator_init 3 (2 / 10) 5 1 =
     Inr \<lparr>baseline_reps = 3, drop_threshold = 2 / 10, smoothing_window = 5, sustain_count = 1\<rparr>"
    by (simp add: ANTCalculator_init_def)
  have enough: "3 + 1 \<le> int (length (filter is_valid rising_reps))"
    by (simp add: rising_reps_def rep_with_speed_def)
  have pos: "0 < np_mean (take (nat 3) (map peak_speed (filter is_valid rising_reps)))"
    unfolding rising_reps_speeds by (simp add: np_mean_def)
  have st: "start_time (filter is_valid rising_reps ! 0) = 0"
    by (simp add: rising_reps_def rep_with_speed_def)
  show ?thesis
    using calculate_normal[OF init enough pos, unfolded Let_def rising_reps_speeds]
    by (simp add: np_mean_def smooth_def find_sustained_drop_def st)
qed

text \<open>With four valid reps at speeds 1, 2, 3, 4 and a window of 5, both gates pass and the
  smoothed speed at index 0 is the raw speed 1, not the trimmed mean 2 of the speeds 1, 2, 3.\<close>

theorem smoothed_speeds_short_counterexample:
  "ANTCalculator_init 3 (2 / 10) 5 1 =
     Inr \<lparr>baseline_reps = 3, drop_threshold = 2 / 10, smoothing_window = 5, sustain_count = 1\<rparr> \<and>
   3 + 1 \<le> int (length (filter is_valid rising_reps)) \<and>
   0 < np_mean (take (nat 3) (map peak_speed (filter is_valid rising_reps))) \<and>
   calculate \<lparr>baseline_reps = 3, drop_threshold = 2 / 10, smoothing_window = 5,
              sustain_count = 1\<rparr> rising_reps =
     Inr \<lparr>ant_reached = True, ant_rep_index = Some 0, ant_timestamp_seconds = Some 0,
          baseline_speed = 2, drop_percent_at_ant = Some (1 / 2),
          smoothed_speeds = [1, 2, 3, 4],
          threshold_flags = [True, False, False, False]\<rparr> \<and>
   trimmed_window_mean (map peak_speed (filter is_valid rising_reps)) 5 0 = 2 \<and>
   smoothed_speeds (projr (calculate \<lparr>baseline_reps = 3, drop_threshold = 2 / 10,
                                      smoothing_window = 5, sustain_count = 1\<rparr> rising_reps)) ! 0
     \<noteq> trimmed_window_mean (map peak_speed (filter is_valid rising_reps)) 5 0"
proof -
  have t: "trimmed_window_mean (map peak_speed (filter is_valid rising_reps)) 5 0 = 2"
    unfolding rising_reps_speeds by (simp add: trimmed_window_mean_def slice_def np_mean_def)
  have init: "ANTCalculator_init 3 (2 / 10) 5 1 =
     Inr \<lparr>baseline_reps = 3, drop_threshold = 2 / 10, smoothing_window = 5, sustain_count = 1\<rparr>"
    by (simp add: ANTCalculator_init_def)
  have enough: "3 + 1 \<le> int (length (filter is_valid rising_reps))"
    by (simp add: rising_reps_def rep_with_speed_def)
  have pos: "0 < np_mean (take (nat 3) (map peak_speed (filter is_valid rising_reps)))"
    unfolding rising_reps_speeds by (simp add: np_mean_def)
  from init enough pos calculate_rising_reps t show ?thesis by simp
qed

theorem smoothed_speeds_trimmed_mean_witness:
  "\<exists>res. calculate \<lparr>baseline_reps = 5, drop_threshold = 2 / 10, smoothing_window = 3,
                     sustain_count = 2\<rparr> sustained_drop_reps = Inr res \<and>
         length (smoothed_speeds res) = 8 \<and>
         smoothed_speeds res ! 5 = 2 / 3 \<and>
         smoothed_speeds res ! 7 = 1 / 2"
proof -
  let ?cfg = "\<lparr>baseline_reps = 5, drop_threshold = 2 / 10, smoothing_window = 3,
                     sustain_count = 2\<rparr>"
  have init: "ANTCalculator_init 5 (2 / 10) 3 2 = Inr ?cfg" by (simp add: ANTCalculator_init_def)
  have enough: "5 + 2 \<le> int (length (filter is_valid sustained_drop_reps))"
    by (simp add: sustained_drop_reps_def rep_with_speed_def)
  have pos: "0 < np_mean (take (nat 5) (map peak_speed (filter is_valid sustained_drop_reps)))"
    unfolding sustained_drop_reps_speeds by (simp add: np_mean_def)
  have len: "length (filter is_valid sustained_drop_reps) = 8"
    by (simp add: sustained_drop_reps_def rep_with_speed_def)
  have t5: "trimmed_window_mean (map peak_speed (filter is_valid sustained_drop_reps)) 3 5 = 2 / 3"
    unfolding sustained_drop_reps_speeds by (simp add: trimmed_window_mean_def slice_def np_mean_def)
  have t7: "trimmed_window_mean (map peak_speed (filter is_valid sustained_drop_reps)) 3 7 = 1 / 2"
    unfolding sustained_drop_reps_speeds by (simp add: trimmed_window_mean_def slice_def np_mean_def)
  from smoothed_speeds_trimmed_mean[OF init enough pos] len t5 t7
  show ?thesis by auto
qed

section \<open>Peaks and segmentation\<close>


lemma length_np_convolve_valid: "length (np_convolve_valid a v) = length a + 1 - length v"
  by (simp add: np_convolve_valid_def)

lemma length_smooth_signal: "length (smooth_signal xs w) = length xs"
proof (cases "w \<le> 1 \<or> length xs < w")
  case True
  then show ?thesis by (auto simp: smooth_signal_def)
next
  case False
  then have "w div 2 < w" by simp
  then have "w div 2 + (w - 1 - w div 2) = w - 1" by simp
  then have "length (np_pad_edge xs (w div 2) (w - 1 - w div 2)) = length xs + (w - 1)"
    by (simp add: np_pad_edge_def)
  with False show ?thesis
    by (simp add: smooth_signal_def Let_def length_np_convolve_valid)
qed

lemma sorted_wrt_butlast: "sorted_wrt P xs \<Longrightarrow> sorted_wrt P (butlast xs)"
  by (induction xs) (auto dest: in_set_butlastD)

lemma peaks_inv_step:
  assumes "peaks_inv n ps" "1 \<le> n"
  shows "peaks_inv (Suc n) (find_peaks_step sig md n ps)"
proof -
  from assms have s: "sorted_wrt (<) ps" and b: "\<forall>p \<in> set ps. 1 \<le> p \<and> p < n"
    by (simp_all add: peaks_inv_def)
  have a: "peaks_inv (Suc n) (ps @ [n])"
    using s b assms(2) by (auto simp: peaks_inv_def sorted_wrt_append)
  have c: "peaks_inv (Suc n) (butlast ps @ [n])"
    using s b assms(2)
    by (auto simp: peaks_inv_def sorted_wrt_append sorted_wrt_butlast dest!: in_set_butlastD)
  have d: "peaks_inv (Suc n) ps" using s b by (auto simp: peaks_inv_def)
  from a c d show ?thesis by (simp add: find_peaks_step_def)
qed

lemma peaks_inv_fold: "peaks_inv n (fold (find_peaks_step sig md) [1 ..< n] [])"
proof (induction n)
  case 0
  show ?case by (simp add: peaks_inv_def)
next
  case (Suc n)
  show ?case
  proof (cases "1 \<le> n")
    case True
    then have "[1 ..< Suc n] = [1 ..< n] @ [n]" by simp
    with peaks_inv_step[OF Suc.IH True] show ?thesis by simp
  next
    case False
    then show ?thesis by (simp add: peaks_inv_def)
  qed
qed

lemma find_peaks_sorted: "sorted_wrt (<) (find_peaks sig md)"
  using peaks_inv_fold[of "length sig - 1" sig md] by (simp add: find_peaks_def peaks_inv_def)

lemma find_peaks_bound: "p \<in> set (find_peaks sig md) \<Longrightarrow> 1 \<le> p \<and> p + 1 < length sig"
  using peaks_inv_fold[of "length sig - 1" sig md] by (auto simp: find_peaks_def peaks_inv_def)

lemma length_slice: "b \<le> length xs \<Longrightarrow> length (slice xs a b) = b - a"
  by (simp add: slice_def)

lemma segment_rep_at_single:
  assumes "peaks ! i < peaks ! (i + 1)" "peaks ! (i + 1) < length y_raw"
  shows "segment_rep_at self tms y_raw peaks seg i =
     [\<lparr>start_idx = peaks ! i, end_idx = peaks ! (i + 1),
       start_time = tms ! (peaks ! i), end_time = tms ! (peaks ! (i + 1)),
       duration = tms ! (peaks ! (i + 1)) - tms ! (peaks ! i),
       peak_speed = calculate_peak_speed (slice tms (peaks ! i) (peaks ! (i + 1) + 1))
                      (slice seg (peaks ! i) (peaks ! (i + 1) + 1)),
       vertical_displacement =
         np_max (slice y_raw (peaks ! i) (peaks ! (i + 1) + 1)) -
         np_min (slice y_raw (peaks ! i) (peaks ! (i + 1) + 1)),
       is_valid =
         validate_rep self (tms ! (peaks ! (i + 1)) - tms ! (peaks ! i))
           (np_max (slice y_raw (peaks ! i) (peaks ! (i + 1) + 1)) -
            np_min (slice y_raw (peaks ! i) (peaks ! (i + 1) + 1)))
           (slice y_raw (peaks ! i) (peaks ! (i + 1) + 1))\<rparr>]"
proof -
  from assms have "length (slice y_raw (peaks ! i) (peaks ! (i + 1) + 1)) = peaks ! (i + 1) + 1 - peaks ! i"
    by (simp add: slice_def)
  with assms(1) have "\<not> length (slice y_raw (peaks ! i) (peaks ! (i + 1) + 1)) < 2" by simp
  then show ?thesis by (simp add: segment_rep_at_def Let_def)
qed

lemma segment_reps_map:
  assumes "sorted_wrt (<) peaks" "\<forall>p \<in> set peaks. p < length y_raw"
  shows "segment_reps self tms y_raw y_smooth peaks valleys seg =
           map (rep_at self tms y_raw peaks seg) [0 ..< length peaks - 1]"
proof -
  have eq: "\<And>i. i \<in> set [0 ..< length peaks - 1] \<Longrightarrow>
          segment_rep_at self tms y_raw peaks seg i = [rep_at self tms y_raw peaks seg i]"
  proof -
    fix i assume "i \<in> set [0 ..< length peaks - 1]"
    then have i: "i + 1 < length peaks" by simp
    with assms(1) have lt: "peaks ! i < peaks ! (i + 1)" by (simp add: sorted_wrt_nth_less)
    from i assms(2) have "peaks ! (i + 1) < length y_raw" by simp
    from segment_rep_at_single[OF lt this]
    show "segment_rep_at self tms y_raw peaks seg i = [rep_at self tms y_raw peaks seg i]"
      by (simp add: rep_at_def)
  qed
  have "map (segment_rep_at self tms y_raw peaks seg) [0 ..< length peaks - 1] =
        map (\<lambda>i. [rep_at self tms y_raw peaks seg i]) [0 ..< length peaks - 1]"
    by (rule map_cong) (simp_all only: eq)
  then show ?thesis unfolding segment_reps_def by (simp only: concat_map_singleton)
qed


lemma detected_peaks_sorted: "sorted_wrt (<) (detected_peaks self input)"
  by (simp add: detected_peaks_def find_peaks_sorted)

lemma detected_peaks_bound:
  "p \<in> set (detected_peaks self input) \<Longrightarrow> 1 \<le> p \<and> p + 1 < length (confident_samples self input)"
  using find_peaks_bound[of p "map uminus (smooth_signal (map sample_y (confident_samples self input))
                      VELOCITY_SMOOTHING_WINDOW)" MIN_SAMPLES_BETWEEN_PEAKS]
  by (simp add: detected_peaks_def length_smooth_signal)

lemma detect_reps_shape:
  "detect_reps self input = [] \<or>
   (10 \<le> length (confident_samples self input) \<and>
    detect_reps self input =
     map (rep_at self (map sample_t (confident_samples self input))
            (map sample_y (confident_samples self input))
            (detected_peaks self input) (confident_samples self input))
         [0 ..< length (detected_peaks self input) - 1])"
proof -
  let ?valid = "confident_samples self input"
  have b: "\<forall>p \<in> set (detected_peaks self input). p < length (map sample_y ?valid)"
    using detected_peaks_bound[of _ self input] by fastforce
  note m = segment_reps_map[OF detected_peaks_sorted b]
  have "detect_reps self input = [] \<or>
   (\<not> length ?valid < MIN_SAMPLES_BETWEEN_PEAKS * 2 \<and>
    detect_reps self input =
     map (rep_at self (map sample_t ?valid) (map sample_y ?valid)
            (detected_peaks self input) ?valid)
         [0 ..< length (detected_peaks self input) - 1])"
    unfolding detect_reps_def Let_def
    by (simp add: m confident_samples_def[symmetric] detected_peaks_def[symmetric])
  then show ?thesis by (auto simp: MIN_SAMPLES_BETWEEN_PEAKS_def)
qed

lemma detect_reps_nth:
  assumes "i < length (detect_reps self input)"
  defines "valid \<equiv> confident_samples self input"
  defines "peaks \<equiv> detected_peaks self input"
  defines "r \<equiv> detect_reps self input ! i"
  defines "y_segment \<equiv> slice (map sample_y valid) (peaks ! i) (peaks ! (i + 1) + 1)"
  shows "length (detect_reps self input) = length peaks - 1"
    and "10 \<le> length valid"
    and "start_idx r = peaks ! i" and "end_idx r = peaks ! (i + 1)"
    and "peaks ! i < peaks ! (i + 1)" and "peaks ! (i + 1) + 1 < length valid"
    and "start_time r = sample_t (valid ! (peaks ! i))"
    and "end_time r = sample_t (valid ! (peaks ! (i + 1)))"
    and "duration r = end_time r - start_time r"
    and "vertical_displacement r = np_max y_segment - np_min y_segment"
    and "is_valid r = validate_rep self (duration r) (vertical_displacement r) y_segment"
proof -
  from assms(1) have ne: "detect_reps self input \<noteq> []" by auto
  with detect_reps_shape[of self input]
  have ten: "10 \<le> length valid"
    and shape: "detect_reps self input =
     map (rep_at self (map sample_t valid) (map sample_y valid) peaks valid)
         [0 ..< length peaks - 1]"
    by (simp_all add: valid_def peaks_def)
  from shape show len: "length (detect_reps self input) = length peaks - 1" by simp
  from ten show "10 \<le> length valid" .
  from assms(1) len have i: "i + 1 < length peaks" by simp
  from i detected_peaks_sorted[of self input] show lt: "peaks ! i < peaks ! (i + 1)"
    by (simp add: peaks_def sorted_wrt_nth_less)
  from i have "peaks ! (i + 1) \<in> set peaks" by simp
  from detected_peaks_bound[OF this[unfolded peaks_def]]
  show b: "peaks ! (i + 1) + 1 < length valid" by (simp add: peaks_def valid_def)
  then have b': "peaks ! (i + 1) < length (map sample_y valid)" by simp
  from b lt have bi: "peaks ! i < length valid" "peaks ! (i + 1) < length valid" by simp_all
  from shape assms(1) len
  have r: "r = rep_at self (map sample_t valid) (map sample_y valid) peaks valid i"
    by (simp add: r_def)
  note single = segment_rep_at_single[OF lt b', of self "map sample_t valid" valid]
  from r single show "start_idx r = peaks ! i" by (simp add: rep_at_def)
  from r single show "end_idx r = peaks ! (i + 1)" by (simp add: rep_at_def)
  from r single bi show st: "start_time r = sample_t (valid ! (peaks ! i))"
    by (simp add: rep_at_def)
  from r single bi show et: "end_time r = sample_t (valid ! (peaks ! (i + 1)))"
    by (simp add: rep_at_def)
  from r single bi show "duration r = end_time r - start_time r" by (simp add: rep_at_def)
  from r single show "vertical_displacement r = np_max y_segment - np_min y_segment"
    by (simp add: rep_at_def y_segment_def)
  from r single bi
  show "is_valid r = validate_rep self (duration r) (vertical_displacement r) y_segment"
    by (simp add: rep_at_def y_segment_def)
qed

section \<open>The detector on the concrete sample sequences\<close>


lemma detect_reps_swing_samples:
  "detect_reps (RepDetector_init SWING_LEFT (1 / 2)) swing_samples =
     [\<lparr>start_idx = 2, end_idx = 8, start_time = 2 / 5, end_time = 8 / 5, duration = 6 / 5,
       peak_speed = 1, vertical_displacement = 2 / 5, is_valid = True\<rparr>,
      \<lparr>start_idx = 8, end_idx = 14, start_time = 8 / 5, end_time = 14 / 5, duration = 6 / 5,
       peak_speed = 1, vertical_displacement = 2 / 5, is_valid = True\<rparr>]"
  by code_simp

lemma swing_samples_increasing: "sorted_wrt (<) (map sample_t swing_samples)"
  by code_simp

lemma noisy_swing_samples_filtered:
  "filter (\<lambda>s. \<not> confidence s < min_confidence (RepDetector_init SWING_LEFT (1 / 2)))
     noisy_swing_samples = swing_samples"
  by code_simp

lemma swing_first_segment:
  "slice (map sample_y (confident_samples (RepDetector_init SWING_LEFT (1 / 2)) swing_samples))
     2 (8 + 1) = [1 / 10, 3 / 10, 5 / 10, 5 / 10, 5 / 10, 3 / 10, 1 / 10]"
  by code_simp

section \<open>Properties of the rep segmentation engine\<close>


lemma confident_times_increasing:
  assumes "sorted_wrt (<) (map sample_t input)"
  shows "sorted_wrt (\<lambda>a b. sample_t a < sample_t b) (confident_samples self input)"
  using assms by (simp add: sorted_wrt_map confident_samples_def sorted_wrt_filter)

text \<open>
  Claim C6. For every input sample sequence with strictly increasing timestamps, every rep
  returned by \<open>detect_reps\<close> has \<open>start_idx < end_idx\<close>, \<open>start_time < end_time\<close> and
  \<open>duration = end_time - start_time\<close>; across the returned sequence \<open>start_idx\<close> is strictly
  increasing, the rep at position \<open>i\<close> spans the detected peaks \<open>i\<close> and \<open>i + 1\<close>, so that
  the \<open>start_idx\<close> of the next rep is the \<open>end_idx\<close> of this one, and the time spans of two
  reps overlap at most in a shared endpoint.
\<close>

theorem detect_reps_ordered:
  assumes inc: "sorted_wrt (<) (map sample_t input)"
  shows "(\<forall>r \<in> set (detect_reps self input).
            start_idx r < end_idx r \<and> start_time r < end_time r \<and>
            duration r = end_time r - start_time r) \<and>
         sorted_wrt (<) (map start_idx (detect_reps self input)) \<and>
         (\<forall>i < length (detect_reps self input).
            start_idx (detect_reps self input ! i) = detected_peaks self input ! i \<and>
            end_idx (detect_reps self input ! i) = detected_peaks self input ! (i + 1)) \<and>
         (\<forall>i. Suc i < length (detect_reps self input) \<longrightarrow>
            start_idx (detect_reps self input ! Suc i) = end_idx (detect_reps self input ! i)) \<and>
         (\<forall>i j. i < j \<and> j < length (detect_reps self input) \<longrightarrow>
            end_time (detect_reps self input ! i) \<le> start_time (detect_reps self input ! j))"
proof -
  let ?rs = "detect_reps self input"
  let ?peaks = "detected_peaks self input"
  let ?valid = "confident_samples self input"
  note ts = confident_times_increasing[OF inc, of self]
  have tlt: "\<And>a b. a < b \<Longrightarrow> b < length ?valid \<Longrightarrow>
               sample_t (?valid ! a) < sample_t (?valid ! b)"
    using sorted_wrt_nth_less[OF ts] by blast
  have each: "\<And>i. i < length ?rs \<Longrightarrow>
                start_idx (?rs ! i) < end_idx (?rs ! i) \<and>
                start_time (?rs ! i) < end_time (?rs ! i) \<and>
                duration (?rs ! i) = end_time (?rs ! i) - start_time (?rs ! i)"
  proof -
    fix i assume i: "i < length ?rs"
    note n = detect_reps_nth[OF i]
    from n(6) have "?peaks ! (i + 1) < length ?valid" by simp
    from tlt[OF n(5) this] n(3,4,5,7,8,9)
    show "start_idx (?rs ! i) < end_idx (?rs ! i) \<and>
          start_time (?rs ! i) < end_time (?rs ! i) \<and>
          duration (?rs ! i) = end_time (?rs ! i) - start_time (?rs ! i)" by simp
  qed
  have c1: "\<forall>r \<in> set ?rs. start_idx r < end_idx r \<and> start_time r < end_time r \<and>
            duration r = end_time r - start_time r"
  proof
    fix r assume "r \<in> set ?rs"
    then obtain i where "i < length ?rs" "r = ?rs ! i" by (auto simp: in_set_conv_nth)
    with each[of i] show "start_idx r < end_idx r \<and> start_time r < end_time r \<and>
            duration r = end_time r - start_time r" by simp
  qed
  have c3: "\<forall>i < length ?rs. start_idx (?rs ! i) = ?peaks ! i \<and> end_idx (?rs ! i) = ?peaks ! (i + 1)"
    using detect_reps_nth(3,4)[of _ self input] by simp
  have plt: "\<And>i j. i < j \<Longrightarrow> j < length ?rs \<Longrightarrow> ?peaks ! i < ?peaks ! j"
  proof -
    fix i j assume ij: "i < j" and j: "j < length ?rs"
    from detect_reps_nth(1)[OF j] j have "j < length ?peaks" by simp
    with ij detected_peaks_sorted[of self input] show "?peaks ! i < ?peaks ! j"
      by (simp add: sorted_wrt_nth_less)
  qed
  have c2: "sorted_wrt (<) (map start_idx ?rs)"
    unfolding sorted_wrt_iff_nth_less
  proof (intro allI impI)
    fix i j assume ij: "i < j" and "j < length (map start_idx ?rs)"
    then have j: "j < length ?rs" by simp
    with ij have i: "i < length ?rs" by simp
    from plt[OF ij j] c3 i j show "map start_idx ?rs ! i < map start_idx ?rs ! j" by simp
  qed
  have c4: "\<forall>i. Suc i < length ?rs \<longrightarrow> start_idx (?rs ! Suc i) = end_idx (?rs ! i)"
    using c3 by simp
  have c5: "\<forall>i j. i < j \<and> j < length ?rs \<longrightarrow> end_time (?rs ! i) \<le> start_time (?rs ! j)"
  proof (intro allI impI)
    fix i j assume "i < j \<and> j < length ?rs"
    then have ij: "i < j" and j: "j < length ?rs" by simp_all
    then have i: "i < length ?rs" by simp
    note ni = detect_reps_nth[OF i] and nj = detect_reps_nth[OF j]
    from nj(5,6) have jb: "?peaks ! j < length ?valid" by simp
    show "end_time (?rs ! i) \<le> start_time (?rs ! j)"
    proof (cases "i + 1 = j")
      case True
      with ni(8) nj(7) show ?thesis by simp
    next
      case False
      with ij have "i + 1 < j" by simp
      from plt[OF this j] have "?peaks ! (i + 1) < ?peaks ! j" .
      from tlt[OF this jb] ni(8) nj(7) show ?thesis by simp
    qed
  qed
  from c1 c2 c3 c4 c5 show ?thesis by blast
qed

theorem detect_reps_ordered_witness:
  "sorted_wrt (<) (map sample_t swing_samples) \<and>
   map start_idx (detect_reps (RepDetector_init SWING_LEFT (1 / 2)) swing_samples) = [2, 8] \<and>
   map end_idx (detect_reps (RepDetector_init SWING_LEFT (1 / 2)) swing_samples) = [8, 14] \<and>
   sorted_wrt (<) (map start_idx (detect_reps (RepDetector_init SWING_LEFT (1 / 2)) swing_samples)) \<and>
   start_idx (detect_reps (RepDetector_init SWING_LEFT (1 / 2)) swing_samples ! Suc 0) =
     end_idx (detect_reps (RepDetector_init SWING_LEFT (1 / 2)) swing_samples ! 0) \<and>
   end_time (detect_reps (RepDetector_init SWING_LEFT (1 / 2)) swing_samples ! 0) \<le>
     start_time (detect_reps (RepDetector_init SWING_LEFT (1 / 2)) swing_samples ! Suc 0)"
proof -
  let ?rs = "detect_reps (RepDetector_init SWING_LEFT (1 / 2)) swing_samples"
  note t = detect_reps_ordered[OF swing_samples_increasing, of "RepDetector_init SWING_LEFT (1 / 2)"]
  have len: "length ?rs = 2" by (simp add: detect_reps_swing_samples)
  from t have s: "sorted_wrt (<) (map start_idx ?rs)" by blast
  from t have "\<forall>i. Suc i < length ?rs \<longrightarrow> start_idx (?rs ! Suc i) = end_idx (?rs ! i)"
    by blast
  with len have adj: "start_idx (?rs ! Suc 0) = end_idx (?rs ! 0)" by simp
  from t have "\<forall>i j. i < j \<and> j < length ?rs \<longrightarrow> end_time (?rs ! i) \<le> start_time (?rs ! j)"
    by blast
  with len have tm: "end_time (?rs ! 0) \<le> start_time (?rs ! Suc 0)" by simp
  have a: "map start_idx ?rs = [2, 8]" "map end_idx ?rs = [8, 14]"
    by (simp_all add: detect_reps_swing_samples)
  from swing_samples_increasing a s adj tm show ?thesis by blast
qed

lemma detect_reps_filtered:
  "detect_reps self (confident_samples self input) = detect_reps self input"
proof -
  let ?f = "confident_samples self input"
  have idem: "confident_samples self ?f = ?f" by (simp add: confident_samples_def)
  have le: "length ?f \<le> length input" by (simp add: confident_samples_def)
  show ?thesis
  proof (cases "length ?f < MIN_SAMPLES_BETWEEN_PEAKS * 2")
    case True
    then show ?thesis
      by (simp add: detect_reps_def Let_def confident_samples_def[symmetric])
  next
    case False
    with le have "\<not> length input < MIN_SAMPLES_BETWEEN_PEAKS * 2" by simp
    with False show ?thesis
      by (simp add: detect_reps_def Let_def confident_samples_def[symmetric] idem)
  qed
qed

text \<open>
  Claim C7. For every sample sequence, \<open>detect_reps\<close> returns the same rep sequence on the
  input and on the input with all samples of confidence below \<open>min_confidence\<close> removed,
  and every index in the range \<open>[start_idx, end_idx]\<close> of a returned rep addresses a sample
  of the confidence-filtered array, whose confidence is not below \<open>min_confidence\<close>.
\<close>

theorem detect_reps_ignores_low_confidence:
  "detect_reps self input =
     detect_reps self (filter (\<lambda>s. \<not> confidence s < min_confidence self) input) \<and>
   (\<forall>r \<in> set (detect_reps self input). \<forall>i. start_idx r \<le> i \<and> i \<le> end_idx r \<longrightarrow>
      i < length (confident_samples self input) \<and>
      \<not> confidence (confident_samples self input ! i) < min_confidence self)"
proof
  have "filter (\<lambda>s. \<not> confidence s < min_confidence self) input = confident_samples self input"
    by (simp add: confident_samples_def not_less)
  then show "detect_reps self input =
     detect_reps self (filter (\<lambda>s. \<not> confidence s < min_confidence self) input)"
    by (simp add: detect_reps_filtered)
next
  show "\<forall>r \<in> set (detect_reps self input). \<forall>i. start_idx r \<le> i \<and> i \<le> end_idx r \<longrightarrow>
      i < length (confident_samples self input) \<and>
      \<not> confidence (confident_samples self input ! i) < min_confidence self"
  proof (intro ballI allI impI)
    fix r i assume r: "r \<in> set (detect_reps self input)"
      and "start_idx r \<le> i \<and> i \<le> end_idx r"
    then have i: "i \<le> end_idx r" by simp
    from r obtain k where k: "k < length (detect_reps self input)" "r = detect_reps self input ! k"
      by (auto simp: in_set_conv_nth)
    note n = detect_reps_nth[OF k(1)]
    from n(4,6) k(2) i have b: "i < length (confident_samples self input)" by simp
    then have "confident_samples self input ! i \<in> set (confident_samples self input)" by simp
    then have "min_confidence self \<le> confidence (confident_samples self input ! i)"
      unfolding confident_samples_def by simp
    with b show "i < length (confident_samples self input) \<and>
      \<not> confidence (confident_samples self input ! i) < min_confidence self" by simp
  qed
qed

theorem detect_reps_ignores_low_confidence_witness:
  "detect_reps (RepDetector_init SWING_LEFT (1 / 2)) noisy_swing_samples =
     detect_reps (RepDetector_init SWING_LEFT (1 / 2)) swing_samples \<and>
   length noisy_swing_samples = 20 \<and> length swing_samples = 17 \<and>
   map start_idx (detect_reps (RepDetector_init SWING_LEFT (1 / 2)) noisy_swing_samples) = [2, 8] \<and>
   map end_idx (detect_reps (RepDetector_init SWING_LEFT (1 / 2)) noisy_swing_samples) = [8, 14] \<and>
   8 < length (confident_samples (RepDetector_init SWING_LEFT (1 / 2)) noisy_swing_samples) \<and>
   \<not> confidence (confident_samples (RepDetector_init SWING_LEFT (1 / 2)) noisy_swing_samples ! 8)
       < min_confidence (RepDetector_init SWING_LEFT (1 / 2))"
proof -
  let ?d = "RepDetector_init SWING_LEFT (1 / 2)"
  from detect_reps_ignores_low_confidence[of ?d noisy_swing_samples]
  have rng: "\<forall>r \<in> set (detect_reps ?d noisy_swing_samples).
      \<forall>i. start_idx r \<le> i \<and> i \<le> end_idx r \<longrightarrow>
        i < length (confident_samples ?d noisy_swing_samples) \<and>
        \<not> confidence (confident_samples ?d noisy_swing_samples ! i) < min_confidence ?d"
    by blast
  from detect_reps_ignores_low_confidence[of ?d noisy_swing_samples]
  have "detect_reps ?d noisy_swing_samples =
          detect_reps ?d (filter (\<lambda>s. \<not> confidence s < min_confidence ?d) noisy_swing_samples)"
    by blast
  then have e: "detect_reps ?d noisy_swing_samples = detect_reps ?d swing_samples"
    by (simp only: noisy_swing_samples_filtered)
  have l: "length noisy_swing_samples = 20" "length swing_samples = 17" by code_simp+
  let ?r = "\<lparr>start_idx = 2, end_idx = 8, start_time = 2 / 5, end_time = 8 / 5, duration = 6 / 5,
       peak_speed = 1, vertical_displacement = 2 / 5, is_valid = True\<rparr>"
  have "?r \<in> set (detect_reps ?d noisy_swing_samples)"
    by (simp add: e detect_reps_swing_samples)
  with rng have "\<forall>i. start_idx ?r \<le> i \<and> i \<le> end_idx ?r \<longrightarrow>
        i < length (confident_samples ?d noisy_swing_samples) \<and>
        \<not> confidence (confident_samples ?d noisy_swing_samples ! i) < min_confidence ?d"
    by blast
  then have i8: "8 < length (confident_samples ?d noisy_swing_samples) \<and>
        \<not> confidence (confident_samples ?d noisy_swing_samples ! 8) < min_confidence ?d"
    by simp
  from e l i8 show ?thesis by (simp add: detect_reps_swing_samples)
qed


lemma sign_changes_eq:
  "length (filter (\<lambda>d. \<bar>d\<bar> > 0) (np_diff (map sgn ds))) = sign_change_count ds"
proof -
  have "filter ((\<lambda>d. \<bar>d\<bar> > 0) \<circ> (\<lambda>i. map sgn ds ! (i + 1) - map sgn ds ! i)) [0 ..< length ds - 1]
        = filter (\<lambda>i. sgn (ds ! i) \<noteq> sgn (ds ! (i + 1))) [0 ..< length ds - 1]"
    by (rule filter_cong) auto
  then show ?thesis
    by (simp add: np_diff_def sign_change_count_def filter_map)
qed

lemma min_vertical_displacement_init:
  "min_vertical_displacement (RepDetector_init mt mc) = spec_min_displacement mt"
  by (cases mt)
     (simp_all add: RepDetector_init_def spec_min_displacement_def
        MIN_VERTICAL_DISPLACEMENT_SNATCH_def MIN_VERTICAL_DISPLACEMENT_SWING_def)

lemma validate_rep_criteria:
  "validate_rep (RepDetector_init mt mc) dur displacement ys \<longleftrightarrow>
     4 / 10 \<le> dur \<and> dur \<le> 4 \<and> spec_min_displacement mt \<le> displacement \<and> arc_smooth ys"
proof -
  have cnt: "int (sign_change_count (smoothed_difference ys)) > max 8 (int (length ys) div 3)
             \<longleftrightarrow> \<not> sign_change_count (smoothed_difference ys) \<le> max 8 (length ys div 3)"
    by (simp add: zdiv_int not_le) linarith
  show ?thesis
    unfolding validate_rep_def min_vertical_displacement_init Let_def sign_changes_eq
      smoothed_difference_def[unfolded Let_def, symmetric]
    by (auto simp: MIN_REP_DURATION_def MAX_REP_DURATION_def arc_smooth_def cnt)
qed

text \<open>
  Claim C3. For every rep produced by \<open>detect_reps\<close>, \<open>is_valid\<close> is true if and only if
  the duration lies in \<open>[0.4, 4.0]\<close>, the vertical displacement is at least the minimum of
  the movement type (0.25 for the two snatch movements, 0.15 for the three swing movements),
  and the arc smoothness check passes on the raw vertical signal of the span: the span has
  fewer than 5 samples, or the number of sign changes of its smoothed first difference does
  not exceed \<open>max(8, span_length // 3)\<close>.
\<close>

theorem is_valid_iff_criteria:
  assumes r: "r \<in> set (detect_reps (RepDetector_init mt mc) input)"
  shows "is_valid r \<longleftrightarrow>
           4 / 10 \<le> duration r \<and> duration r \<le> 4 \<and>
           spec_min_displacement mt \<le> vertical_displacement r \<and>
           arc_smooth (slice (map sample_y (confident_samples (RepDetector_init mt mc) input))
                         (start_idx r) (end_idx r + 1))"
proof -
  from r obtain k where k: "k < length (detect_reps (RepDetector_init mt mc) input)"
    and rk: "r = detect_reps (RepDetector_init mt mc) input ! k"
    by (auto simp: in_set_conv_nth)
  note n = detect_reps_nth[OF k]
  from n(3,4,11) rk show ?thesis by (simp add: validate_rep_criteria)
qed

theorem is_valid_iff_criteria_witness:
  "is_valid (detect_reps (RepDetector_init SWING_LEFT (1 / 2)) swing_samples ! 0) \<and>
   4 / 10 \<le> duration (detect_reps (RepDetector_init SWING_LEFT (1 / 2)) swing_samples ! 0) \<and>
   duration (detect_reps (RepDetector_init SWING_LEFT (1 / 2)) swing_samples ! 0) \<le> 4 \<and>
   spec_min_displacement SWING_LEFT \<le>
     vertical_displacement (detect_reps (RepDetector_init SWING_LEFT (1 / 2)) swing_samples ! 0) \<and>
   arc_smooth [1 / 10, 3 / 10, 5 / 10, 5 / 10, 5 / 10, 3 / 10, 1 / 10]"
proof -
  let ?d = "RepDetector_init SWING_LEFT (1 / 2)"
  let ?r = "detect_reps ?d swing_samples ! 0"
  have m: "?r \<in> set (detect_reps ?d swing_samples)" by (simp add: detect_reps_swing_samples)
  have v: "is_valid ?r" "start_idx ?r = 2" "end_idx ?r = 8"
    by (simp_all add: detect_reps_swing_samples)
  from is_valid_iff_criteria[OF m] v(1)
  have "4 / 10 \<le> duration ?r \<and> duration ?r \<le> 4 \<and>
        spec_min_displacement SWING_LEFT \<le> vertical_displacement ?r \<and>
        arc_smooth (slice (map sample_y (confident_samples ?d swing_samples))
                      (start_idx ?r) (end_idx ?r + 1))" by blast
  then have "4 / 10 \<le> duration ?r \<and> duration ?r \<le> 4 \<and>
        spec_min_displacement SWING_LEFT \<le> vertical_displacement ?r \<and>
        arc_smooth [1 / 10, 3 / 10, 5 / 10, 5 / 10, 5 / 10, 3 / 10, 1 / 10]"
    unfolding v(2,3) swing_first_segment .
  with v(1) show ?thesis by blast
qed

section \<open>Properties of the streaming rep segmenter\<close>


lemma prune_keeps:
  "xs \<noteq> [] \<Longrightarrow> \<not> sample_t (hd xs) < c \<Longrightarrow> prune c xs idx = (xs, idx)"
  by (cases xs) simp_all

lemma rep_key_fun: "(\<lambda>r. (start_time r, end_time r)) = rep_key"
  by (simp add: rep_key_def fun_eq_iff)

lemma keys_of_new_reps:
  "set (map rep_key (old @ filter (\<lambda>rep. rep_key rep \<notin> set (map rep_key old)) new)) =
     set (map rep_key old) \<union> set (map rep_key new)"
  by auto

lemma add_sample_no_eviction:
  assumes "\<not> sample_t (hd (samples st @ [x])) < sample_t x - buffer_seconds st"
  shows "samples (snd (add_sample st x)) = samples st @ [x]"
    and "detector (snd (add_sample st x)) = detector st"
    and "buffer_seconds (snd (add_sample st x)) = buffer_seconds st"
    and "set (map rep_key (detected_reps (snd (add_sample st x)))) =
           set (map rep_key (detected_reps st)) \<union>
           set (map rep_key (detect_reps (detector st) (samples st @ [x])))"
proof -
  have p: "prune (sample_t x - buffer_seconds st) (samples st @ [x])
             (last_processed_idx st) = (samples st @ [x], last_processed_idx st)"
    using assms by (intro prune_keeps) simp_all
  show "samples (snd (add_sample st x)) = samples st @ [x]"
    by (simp add: add_sample_def Let_def p)
  show "detector (snd (add_sample st x)) = detector st"
    by (simp add: add_sample_def Let_def)
  show "buffer_seconds (snd (add_sample st x)) = buffer_seconds st"
    by (simp add: add_sample_def Let_def)
  have "detected_reps (snd (add_sample st x)) =
          detected_reps st @
          filter (\<lambda>rep. rep_key rep \<notin> set (map rep_key (detected_reps st)))
            (detect_reps (detector st) (samples st @ [x]))"
    by (simp add: add_sample_def Let_def p rep_key_fun rep_key_def[symmetric])
  then show "set (map rep_key (detected_reps (snd (add_sample st x)))) =
           set (map rep_key (detected_reps st)) \<union>
           set (map rep_key (detect_reps (detector st) (samples st @ [x])))"
    by (simp only: keys_of_new_reps)
qed

lemma feed_samples_snoc:
  "feed_samples st (xs @ [x]) = snd (add_sample (feed_samples st xs) x)"
  by (simp add: feed_samples_def)

lemma feed_samples_no_eviction:
  assumes "\<forall>s \<in> set xs. sample_t s - buf \<le> sample_t (hd xs)"
  shows "samples (feed_samples (StreamingRepDetector_init mt buf mc) xs) = xs \<and>
         detector (feed_samples (StreamingRepDetector_init mt buf mc) xs) = RepDetector_init mt mc \<and>
         buffer_seconds (feed_samples (StreamingRepDetector_init mt buf mc) xs) = buf \<and>
         set (map rep_key (detected_reps (feed_samples (StreamingRepDetector_init mt buf mc) xs))) =
           (\<Union>k \<in> {1 .. length xs}.
              set (map rep_key (detect_reps (RepDetector_init mt mc) (take k xs))))"
  using assms
proof (induction xs rule: rev_induct)
  case Nil
  show ?case by (simp add: feed_samples_def StreamingRepDetector_init_def)
next
  case (snoc x ys)
  let ?st = "feed_samples (StreamingRepDetector_init mt buf mc) ys"
  have hyp: "\<forall>s \<in> set ys. sample_t s - buf \<le> sample_t (hd ys)"
  proof (cases ys)
    case Nil
    then show ?thesis by simp
  next
    case (Cons a list)
    with snoc.prems show ?thesis by simp
  qed
  note ih = snoc.IH[OF hyp]
  from snoc.prems have "sample_t x - buf \<le> sample_t (hd (ys @ [x]))" by simp
  with ih have ne: "\<not> sample_t (hd (samples ?st @ [x])) < sample_t x - buffer_seconds ?st"
    by simp
  note a = add_sample_no_eviction[OF ne]
  have un: "(\<Union>k \<in> {1 .. length (ys @ [x])}.
              set (map rep_key (detect_reps (RepDetector_init mt mc) (take k (ys @ [x]))))) =
            (\<Union>k \<in> {1 .. length ys}.
              set (map rep_key (detect_reps (RepDetector_init mt mc) (take k ys)))) \<union>
            set (map rep_key (detect_reps (RepDetector_init mt mc) (ys @ [x])))"
  proof -
    have "{1 .. length (ys @ [x])} = {1 .. length ys} \<union> {Suc (length ys)}" by auto
    then show ?thesis by (simp add: Un_commute)
  qed
  from a ih show ?case unfolding feed_samples_snoc un by simp
qed

text \<open>
  Claim C4, amended. For every finite sample sequence fed one sample at a time into
  \<open>add_sample\<close> with \<open>buffer_seconds\<close> large enough that no sample is ever evicted, the
  buffer holds the whole sequence, and the final cumulative rep set, keyed by
  \<open>(start_time, end_time)\<close>, is the union over the non-empty prefixes of the sequence of the
  sets that batch \<open>detect_reps\<close> produces on each prefix; so it contains the set that one
  batch call over the whole sequence produces.
\<close>

theorem streaming_keys_cover_batch:
  assumes "\<forall>s \<in> set input. sample_t s - buf \<le> sample_t (hd input)"
  shows "samples (feed_samples (StreamingRepDetector_init mt buf mc) input) = input \<and>
         set (map rep_key (get_all_reps (feed_samples (StreamingRepDetector_init mt buf mc) input))) =
           (\<Union>k \<in> {1 .. length input}.
              set (map rep_key (detect_reps (RepDetector_init mt mc) (take k input)))) \<and>
         set (map rep_key (detect_reps (RepDetector_init mt mc) input)) \<subseteq>
           set (map rep_key (get_all_reps (feed_samples (StreamingRepDetector_init mt buf mc) input)))"
proof -
  note f = feed_samples_no_eviction[OF assms, of mt mc]
  have sub: "set (map rep_key (detect_reps (RepDetector_init mt mc) input)) \<subseteq>
         (\<Union>k \<in> {1 .. length input}.
              set (map rep_key (detect_reps (RepDetector_init mt mc) (take k input))))"
  proof (cases "input = []")
    case True
    then show ?thesis by (simp add: detect_reps_def MIN_SAMPLES_BETWEEN_PEAKS_def)
  next
    case False
    then have "length input \<in> {1 .. length input}" by (cases input) simp_all
    moreover have "take (length input) input = input" by simp
    ultimately show ?thesis by (metis (no_types, lifting) UN_upper)
  qed
  from f sub show ?thesis by (simp add: get_all_reps_def)
qed

lemma swing_samples_retained:
  "\<forall>s \<in> set swing_samples. sample_t s - 1000 \<le> sample_t (hd swing_samples)"
  by code_simp

theorem streaming_keys_cover_batch_witness:
  "samples (feed_samples (StreamingRepDetector_init SWING_LEFT 1000 (1 / 2)) swing_samples) =
     swing_samples \<and>
   map rep_key (detect_reps (RepDetector_init SWING_LEFT (1 / 2)) swing_samples) =
     [(2 / 5, 8 / 5), (8 / 5, 14 / 5)] \<and>
   set [(2 / 5, 8 / 5), (8 / 5, 14 / 5)] \<subseteq>
     set (map rep_key (get_all_reps
            (feed_samples (StreamingRepDetector_init SWING_LEFT 1000 (1 / 2)) swing_samples)))"
proof -
  note t = streaming_keys_cover_batch[OF swing_samples_retained, of SWING_LEFT "1 / 2"]
  have k: "map rep_key (detect_reps (RepDetector_init SWING_LEFT (1 / 2)) swing_samples) =
     [(2 / 5, 8 / 5), (8 / 5, 14 / 5)]"
    by (simp add: detect_reps_swing_samples rep_key_def)
  from t have "set (map rep_key (detect_reps (RepDetector_init SWING_LEFT (1 / 2)) swing_samples))
     \<subseteq> set (map rep_key (get_all_reps
            (feed_samples (StreamingRepDetector_init SWING_LEFT 1000 (1 / 2)) swing_samples)))"
    by blast
  then have "set [(2 / 5, 8 / 5), (8 / 5, 14 / 5)] \<subseteq>
     set (map rep_key (get_all_reps
            (feed_samples (StreamingRepDetector_init SWING_LEFT 1000 (1 / 2)) swing_samples)))"
    unfolding k .
  with t k show ?thesis by blast
qed

lemma dip_samples_stream_keys:
  "map rep_key (get_all_reps (feed_samples (StreamingRepDetector_init SWING_LEFT 1000 (1 / 2))
     dip_samples)) = [(2 / 5, 8 / 5)]"
  by code_simp

lemma dip_samples_batch: "detect_reps (RepDetector_init SWING_LEFT (1 / 2)) dip_samples = []"
  by code_simp

lemma dip_samples_increasing: "sorted_wrt (<) (map sample_t dip_samples)"
  by code_simp

lemma dip_samples_retained:
  "samples (feed_samples (StreamingRepDetector_init SWING_LEFT 1000 (1 / 2)) dip_samples) =
     dip_samples"
  by code_simp

text \<open>On eleven samples with strictly increasing timestamps and a buffer of 1000 seconds,
  the run on the first ten samples reports the rep between the dips at 0.4 s and 1.6 s; with
  the eleventh sample the second dip is no longer a peak, and the batch call reports no rep.\<close>

theorem streaming_batch_counterexample:
  "sorted_wrt (<) (map sample_t dip_samples) \<and>
   samples (feed_samples (StreamingRepDetector_init SWING_LEFT 1000 (1 / 2)) dip_samples) =
     dip_samples \<and>
   set (map rep_key (get_all_reps
          (feed_samples (StreamingRepDetector_init SWING_LEFT 1000 (1 / 2)) dip_samples))) \<noteq>
   set (map rep_key (detect_reps (RepDetector_init SWING_LEFT (1 / 2)) dip_samples))"
  by (simp add: dip_samples_stream_keys dip_samples_batch dip_samples_increasing
        dip_samples_retained)

end
